theory Spec2Isabelle
  imports Main "HOL-Library.Word"
begin

section \<open>Python values and errors\<close>

text \<open>
  The exceptions the modelled code can raise.  \<open>ValueError\<close>, \<open>ZeroDivisionError\<close>,
  \<open>IndexError\<close> and \<open>TypeError\<close> are Python's own; \<open>ShapeMismatch\<close> is the rejection of
  a buffer of the wrong shape, \<open>CommunicationFailure\<close> the error of a collective.
  \<open>OutsideModel\<close> is no exception of the program: it marks a computation on numbers
  beyond the ranges that the model of numpy's arithmetic covers.
\<close>

datatype error = ValueError | ZeroDivisionError | IndexError | TypeError | ShapeMismatch
  | CommunicationFailure | OutsideModel

text \<open>Sequencing of computations that may raise: the first error wins.\<close>

definition and_then :: "error + 'a \<Rightarrow> ('a \<Rightarrow> error + 'b) \<Rightarrow> error + 'b" where
  "and_then m f = (case m of Inl e \<Rightarrow> Inl e | Inr v \<Rightarrow> f v)"

text \<open>
  Python's \<open>//\<close> and \<open>%\<close> on unbounded integers: floor division and the remainder with
  the sign of the divisor, which is what \<open>div\<close> and \<open>mod\<close> on \<open>int\<close> compute; a zero
  divisor raises.
\<close>

definition floordiv :: "int \<Rightarrow> int \<Rightarrow> error + int" where
  "floordiv a b = (if b = 0 then Inl ZeroDivisionError else Inr (a div b))"

definition pymod :: "int \<Rightarrow> int \<Rightarrow> error + int" where
  "pymod a b = (if b = 0 then Inl ZeroDivisionError else Inr (a mod b))"

text \<open>A communicator, as far as the code reads it: the caller's rank and the group size.\<close>

record comm =
  comm_rank :: int
  comm_size :: int

text \<open>Python's \<open>slice(start, stop)\<close>.\<close>

datatype slice = Slice (start: int) (stop: int)

text \<open>
  Modelled from the spec: \<open>tointtuple\<close> of \<open>pyoperators.utils\<close> is not among the sources.
  The spec's GlobalShape is an ordered tuple of integers, and on a tuple of integers the
  conversion returns the same tuple.
\<close>

definition tointtuple :: "int list \<Rightarrow> int list" where
  "tointtuple shape = shape"


section \<open>The partition arithmetic\<close>

text \<open>
  \<open>distribute_shape(shape, rank=None, size=None, comm=None)\<close>.  The first argument of
  the model is the ambient \<open>MPI.COMM_WORLD\<close>, used when \<open>comm\<close> is \<open>None\<close>; the parameter
  \<open>size\<close> is written \<open>gsize\<close>.
\<close>

definition distribute_shape ::
  "comm \<Rightarrow> int list \<Rightarrow> int option \<Rightarrow> int option \<Rightarrow> comm option \<Rightarrow> error + int list" where
  "distribute_shape world shape rank gsize comm =
     (let comm' = (case comm of None \<Rightarrow> world | Some c \<Rightarrow> c);
          size' = (case gsize of None \<Rightarrow> comm_size comm' | Some s \<Rightarrow> s);
          rank' = (case rank of None \<Rightarrow> comm_rank comm' | Some r \<Rightarrow> r)
      in case tointtuple shape of
           [] \<Rightarrow> if size' > 1 then Inl ValueError else Inr []
         | nglobal # rest \<Rightarrow>
             and_then (floordiv nglobal size') (\<lambda>q.
             and_then (pymod nglobal size') (\<lambda>m.
               Inr ((q + (if m > rank' then 1 else 0)) # rest))))"

text \<open>\<open>distribute_slice(nglobal, rank=None, size=None, comm=None)\<close>.\<close>

definition distribute_slice ::
  "comm \<Rightarrow> int \<Rightarrow> int option \<Rightarrow> int option \<Rightarrow> comm option \<Rightarrow> error + slice" where
  "distribute_slice world nglobal rank gsize comm =
     (let comm' = (case comm of None \<Rightarrow> world | Some c \<Rightarrow> c);
          size' = (case gsize of None \<Rightarrow> comm_size comm' | Some s \<Rightarrow> s);
          rank' = (case rank of None \<Rightarrow> comm_rank comm' | Some r \<Rightarrow> r)
      in and_then (floordiv nglobal size') (\<lambda>q.
         and_then (pymod nglobal size') (\<lambda>m.
           let nlocal = q + (if m > rank' then 1 else 0);
               start = q * rank' + min rank' m;
               stop = start + nlocal
           in Inr (Slice start stop))))"


section \<open>Numbers of numpy\<close>

text \<open>
  The constructor computes with three kinds of numbers: Python's unbounded \<open>int\<close>, numpy's
  \<open>int64\<close>, which wraps around, and numpy's \<open>float64\<close>.  A \<open>float64\<close> holds every integer
  of magnitude at most \<open>2^53\<close> exactly; the model has the floats that hold such an integer,
  and writes the integer.  Where an operation leaves these floats (its exact result is
  larger), or meets a Python \<open>int\<close> that does not fit \<open>int64\<close>, what numpy returns depends
  on roundings and on promotions to other element types; the model then stops with
  \<open>OutsideModel\<close> and says nothing about the program.
\<close>

datatype number = PyInt int | NpInt64 "64 word" | NpFloat64 int

definition fits_int64 :: "int \<Rightarrow> bool" where
  "fits_int64 v = (- (2 ^ 63) \<le> v \<and> v < 2 ^ 63)"

definition exact_float :: "int \<Rightarrow> bool" where
  "exact_float v = (\<bar>v\<bar> \<le> 2 ^ 53)"

definition float_of :: "int \<Rightarrow> error + number" where
  "float_of v = (if exact_float v then Inr (NpFloat64 v) else Inl OutsideModel)"

text \<open>The integer a number holds; an \<open>int64\<close> is read as a signed value.\<close>

fun num_value :: "number \<Rightarrow> int" where
  "num_value (PyInt v) = v"
| "num_value (NpInt64 w) = sint w"
| "num_value (NpFloat64 f) = f"

text \<open>
  \<open>a * b\<close> and \<open>a + b\<close>.  With an \<open>int64\<close> a Python \<open>int\<close> that fits becomes an \<open>int64\<close>, and
  the result wraps; with a \<open>float64\<close> the other operand becomes a \<open>float64\<close>.
\<close>

fun num_mul :: "number \<Rightarrow> number \<Rightarrow> error + number" where
  "num_mul (PyInt x) (PyInt y) = Inr (PyInt (x * y))"
| "num_mul (PyInt x) (NpInt64 w) =
     (if fits_int64 x then Inr (NpInt64 (word_of_int x * w)) else Inl OutsideModel)"
| "num_mul (NpInt64 v) (PyInt y) =
     (if fits_int64 y then Inr (NpInt64 (v * word_of_int y)) else Inl OutsideModel)"
| "num_mul (NpInt64 v) (NpInt64 w) = Inr (NpInt64 (v * w))"
| "num_mul (PyInt x) (NpFloat64 g) =
     (if exact_float x then float_of (x * g) else Inl OutsideModel)"
| "num_mul (NpFloat64 f) (PyInt y) =
     (if exact_float y then float_of (f * y) else Inl OutsideModel)"
| "num_mul (NpInt64 v) (NpFloat64 g) =
     (if exact_float (sint v) then float_of (sint v * g) else Inl OutsideModel)"
| "num_mul (NpFloat64 f) (NpInt64 w) =
     (if exact_float (sint w) then float_of (f * sint w) else Inl OutsideModel)"
| "num_mul (NpFloat64 f) (NpFloat64 g) = float_of (f * g)"

fun num_add :: "number \<Rightarrow> number \<Rightarrow> error + number" where
  "num_add (PyInt x) (PyInt y) = Inr (PyInt (x + y))"
| "num_add (PyInt x) (NpInt64 w) =
     (if fits_int64 x then Inr (NpInt64 (word_of_int x + w)) else Inl OutsideModel)"
| "num_add (NpInt64 v) (PyInt y) =
     (if fits_int64 y then Inr (NpInt64 (v + word_of_int y)) else Inl OutsideModel)"
| "num_add (NpInt64 v) (NpInt64 w) = Inr (NpInt64 (v + w))"
| "num_add (PyInt x) (NpFloat64 g) =
     (if exact_float x then float_of (x + g) else Inl OutsideModel)"
| "num_add (NpFloat64 f) (PyInt y) =
     (if exact_float y then float_of (f + y) else Inl OutsideModel)"
| "num_add (NpInt64 v) (NpFloat64 g) =
     (if exact_float (sint v) then float_of (sint v + g) else Inl OutsideModel)"
| "num_add (NpFloat64 f) (NpInt64 w) =
     (if exact_float (sint w) then float_of (f + sint w) else Inl OutsideModel)"
| "num_add (NpFloat64 f) (NpFloat64 g) = float_of (f + g)"

text \<open>
  \<open>np.product\<close> of a tuple of Python \<open>int\<close>s.  The empty tuple becomes an empty array of
  \<open>float64\<close>, whose product is the float \<open>1.0\<close>.  A tuple of numbers that fit \<open>int64\<close>
  becomes an array of \<open>int64\<close>, whose product wraps around.
\<close>

definition np_product :: "int list \<Rightarrow> error + number" where
  "np_product xs =
     (if xs = [] then Inr (NpFloat64 1)
      else if list_all fits_int64 xs then Inr (NpInt64 (prod_list (map word_of_int xs)))
      else Inl OutsideModel)"


section \<open>Arrays as raw storage\<close>

text \<open>
  A numpy array as \<open>DistributionGlobalOperator\<close> handles it: a shape, an element type
  with the width of one element in bytes, and the C-contiguous storage,
  \<open>itemsize * product(shape)\<close> bytes.  \<open>a.view(np.byte)\<close> is the storage itself, as a flat
  sequence of bytes.
\<close>

type_synonym byte = "8 word"

record dtype =
  dtype_name :: string
  dtype_itemsize :: int

record ndarray =
  shape :: "int list"
  dtype :: dtype
  storage :: "byte list"

definition itemsize :: "ndarray \<Rightarrow> int" where
  "itemsize a = dtype_itemsize (dtype a)"

text \<open>\<open>xs[0]\<close> on a tuple: the empty tuple raises.\<close>

definition first_item :: "int list \<Rightarrow> error + int" where
  "first_item xs = (case xs of [] \<Rightarrow> Inl IndexError | x # _ \<Rightarrow> Inr x)"

text \<open>
  The bounds of \<open>a[start:stop]\<close> along an axis of length \<open>n\<close>: a negative index counts
  from the end, and both are clipped to \<open>[0, n]\<close>.
\<close>

definition clip_index :: "int \<Rightarrow> int \<Rightarrow> int" where
  "clip_index n i = (if i < 0 then max 0 (i + n) else min i n)"

text \<open>
  \<open>a[start:stop]\<close>: the rows \<open>start .. stop - 1\<close> of the first axis.  One row is
  \<open>itemsize * product(shape[1:])\<close> bytes.  An array without axes cannot be sliced.
\<close>

definition getslice :: "ndarray \<Rightarrow> int \<Rightarrow> int \<Rightarrow> error + ndarray" where
  "getslice a lo hi =
     (case shape a of
        [] \<Rightarrow> Inl IndexError
      | n # rest \<Rightarrow>
          let lo' = clip_index n lo;
              hi' = max lo' (clip_index n hi);
              row = itemsize a * prod_list rest
          in Inr \<lparr>shape = (hi' - lo') # rest, dtype = dtype a,
                  storage = take (nat ((hi' - lo') * row)) (drop (nat (lo' * row)) (storage a))\<rparr>)"

text \<open>
  \<open>output[...] = value\<close>: the storage of \<open>output\<close> receives the elements of \<open>value\<close>,
  converted to the element type of \<open>output\<close> when the types differ.  The conversion
  \<open>astype\<close> (to a given element type) is a parameter of the model.

  Modelled from the spec: the check of the shapes is done by \<open>Operator\<close> of
  \<open>pyoperators.core\<close>, which is not among the sources; the spec has a supplied buffer that
  does not match the configured shape rejected as ShapeMismatch.
\<close>

definition setall :: "(dtype \<Rightarrow> ndarray \<Rightarrow> ndarray) \<Rightarrow> ndarray \<Rightarrow> ndarray \<Rightarrow> error + ndarray" where
  "setall astype output v =
     (if shape v \<noteq> shape output then Inl ShapeMismatch
      else Inr (output\<lparr>storage :=
                  storage (if dtype v = dtype output then v
                           else astype (dtype output) v)\<rparr>))"


section \<open>The collectives\<close>

text \<open>\<open>traverse f xs\<close> runs \<open>f\<close> on every element in order and stops at the first error.\<close>

fun traverse :: "('a \<Rightarrow> error + 'b) \<Rightarrow> 'a list \<Rightarrow> error + 'b list" where
  "traverse f [] = Inr []"
| "traverse f (x # xs) =
     and_then (f x) (\<lambda>y. and_then (traverse f xs) (\<lambda>ys. Inr (y # ys)))"

text \<open>
  The two collectives are the MPI library's, outside the sources; they are modelled as
  the library documents them, which is how the spec's interface of the process group
  (\<open>gatherVariable\<close>, \<open>allReduceSum\<close>) has them.

  The variable-length all-gather of the communicator (\<open>Allgatherv\<close>), seen from one
  receiver: the block sent by rank \<open>r\<close> is written to the receive buffer at displacement
  \<open>displs[r]\<close> and must have the announced length \<open>counts[r]\<close>; a block of another
  length, or one that does not fit in the buffer, is an error of the collective.
\<close>

definition place_block :: "'c list \<Rightarrow> 'c list \<times> int \<times> int \<Rightarrow> error + 'c list" where
  "place_block recv blk =
     (case blk of (block, count, displ) \<Rightarrow>
        if count \<noteq> int (length block) \<or> displ < 0 \<or> int (length recv) < displ + count
        then Inl CommunicationFailure
        else Inr (take (nat displ) recv @ block @ drop (nat (displ + count)) recv))"

fun gather_blocks :: "'c list \<Rightarrow> ('c list \<times> int \<times> int) list \<Rightarrow> error + 'c list" where
  "gather_blocks recv [] = Inr recv"
| "gather_blocks recv (blk # blks) =
     and_then (place_block recv blk) (\<lambda>recv'. gather_blocks recv' blks)"

text \<open>
  A count or a displacement handed to the collective becomes a C \<open>int\<close>.  A float is
  refused with \<open>TypeError\<close>.  What happens to an integer beyond 32 bits depends on the
  version of the library, and is outside the model.
\<close>

definition to_c_int :: "number \<Rightarrow> error + int" where
  "to_c_int x =
     (case x of
        NpFloat64 _ \<Rightarrow> Inl TypeError
      | _ \<Rightarrow> if - (2 ^ 31) \<le> num_value x \<and> num_value x < 2 ^ 31 then Inr (num_value x)
             else Inl OutsideModel)"

text \<open>
  The collective over the whole group.  The list holds, in rank order, what every worker
  passes: its send buffer, its receive buffer, the counts and the displacements.  The
  result is every worker's receive buffer afterwards.
\<close>

definition Allgatherv ::
  "('c list \<times> 'c list \<times> number list \<times> number list) list \<Rightarrow> error + 'c list list" where
  "Allgatherv calls =
     traverse (\<lambda>(send, recv, cnts, displs).
        and_then (traverse to_c_int cnts) (\<lambda>cs.
        and_then (traverse to_c_int displs) (\<lambda>ds.
          if length cs \<noteq> length calls \<or> length ds \<noteq> length calls
          then Inl CommunicationFailure
          else gather_blocks recv (zip (map fst calls) (zip cs ds))))) calls"

text \<open>
  The in-place all-reduce with \<open>MPI.SUM\<close>: every worker's buffer becomes the element-wise
  sum of all the buffers, accumulated in rank order.  Buffers of different lengths are an
  error of the collective.
\<close>

definition Allreduce_sum :: "('a::comm_monoid_add) list list \<Rightarrow> error + 'a list list" where
  "Allreduce_sum bufs =
     (case bufs of
        [] \<Rightarrow> Inr []
      | b # bs \<Rightarrow>
          if \<forall>x \<in> set bs. length x = length b
          then Inr (map (\<lambda>_. foldl (\<lambda>acc x. map2 (+) acc x) b bs) bufs)
          else Inl CommunicationFailure)"


section \<open>DistributionGlobalOperator\<close>

text \<open>What the constructor leaves in the operator.\<close>

record DGO =
  commout :: comm
  shapein :: "int list"
  shapeout :: "int list"
  slice :: slice
  counts :: "number list"
  offsets :: "number list"

text \<open>
  The loop of the constructor over \<open>range(commout.size)\<close>; the state is the pair of the
  lists \<open>counts\<close> and \<open>offsets\<close>.  The width of the slice is a Python \<open>int\<close>; multiplied by
  \<open>np.product(shapein[1:])\<close> it gives a number of numpy, and so do the sums in \<open>offsets\<close>
  after the initial \<open>0\<close>.
\<close>

fun partition_loop ::
  "comm \<Rightarrow> int list \<Rightarrow> comm \<Rightarrow> int list \<Rightarrow> number list \<times> number list
     \<Rightarrow> error + number list \<times> number list" where
  "partition_loop world shp cout [] st = Inr st"
| "partition_loop world shp cout (rank # ranks) st =
     (case st of (cnts, offs) \<Rightarrow>
        and_then (first_item shp) (\<lambda>nglobal.
        and_then (distribute_slice world nglobal (Some rank) None (Some cout)) (\<lambda>s.
        and_then (np_product (drop 1 shp)) (\<lambda>p.
        and_then (num_mul (PyInt (stop s - start s)) p) (\<lambda>n.
          case offs of
            [] \<Rightarrow> Inl IndexError
          | _ # _ \<Rightarrow>
              and_then (num_add (last offs) n) (\<lambda>off.
                partition_loop world shp cout ranks (cnts @ [n], offs @ [off])))))))"

text \<open>
  \<open>DistributionGlobalOperator.__init__(shapein, commout=None)\<close>; \<open>world\<close> is
  \<open>MPI.COMM_WORLD\<close>.  \<open>Operator.__init__\<close> of \<open>pyoperators.core\<close> (not among the sources)
  is taken to record the communicator and the two shapes.
\<close>

definition DGO_init :: "comm \<Rightarrow> int list option \<Rightarrow> comm option \<Rightarrow> error + DGO" where
  "DGO_init world shp cout =
     (case shp of
        None \<Rightarrow> Inl ValueError
      | Some shp' \<Rightarrow>
          let cout' = (case cout of None \<Rightarrow> world | Some c \<Rightarrow> c)
          in and_then (distribute_shape world shp' None None (Some cout')) (\<lambda>shpout.
             and_then (first_item shp') (\<lambda>nglobal.
             and_then (distribute_slice world nglobal None None (Some cout')) (\<lambda>sl.
             and_then (partition_loop world shp' cout' [0 .. comm_size cout' - 1]
                         ([], [PyInt 0]))
               (\<lambda>(cnts, offs).
                  Inr \<lparr>commout = cout', shapein = shp', shapeout = shpout, slice = sl,
                       counts = cnts, offsets = butlast offs\<rparr>)))))"

text \<open>\<open>direct\<close>: \<open>output[:] = input[self.slice.start:self.slice.stop]\<close>.\<close>

definition DGO_direct ::
  "(dtype \<Rightarrow> ndarray \<Rightarrow> ndarray) \<Rightarrow> DGO \<Rightarrow> ndarray \<Rightarrow> ndarray \<Rightarrow> error + ndarray" where
  "DGO_direct astype self input output =
     and_then (getslice input (start (slice self)) (stop (slice self))) (\<lambda>v.
       if shape output = [] then Inl IndexError else setall astype output v)"

text \<open>
  \<open>transpose\<close>, up to the call of the collective: what one worker passes to
  \<open>Allgatherv\<close>.
\<close>

definition DGO_transpose_call ::
  "(dtype \<Rightarrow> ndarray \<Rightarrow> ndarray) \<Rightarrow> DGO \<Rightarrow> ndarray \<Rightarrow> ndarray
     \<Rightarrow> error + byte list \<times> byte list \<times> number list \<times> number list" where
  "DGO_transpose_call astype self input output =
     (let input' = (if itemsize input \<noteq> itemsize output
                    then astype (dtype output) input else input);
          nbytes = itemsize output
      in and_then (traverse (\<lambda>c. num_mul c (PyInt nbytes)) (counts self)) (\<lambda>cs.
         and_then (traverse (\<lambda>d. num_mul d (PyInt nbytes)) (offsets self)) (\<lambda>ds.
           Inr (storage input', storage output, cs, ds))))"

text \<open>
  \<open>transpose\<close> on every worker of the group: the list holds, in rank order, each worker's
  operator, input and output; the result is each worker's output afterwards.
\<close>

definition DGO_transpose ::
  "(dtype \<Rightarrow> ndarray \<Rightarrow> ndarray) \<Rightarrow> (DGO \<times> ndarray \<times> ndarray) list \<Rightarrow> error + ndarray list" where
  "DGO_transpose astype calls =
     and_then (traverse (\<lambda>(self, input, output).
                 DGO_transpose_call astype self input output) calls) (\<lambda>passed.
     and_then (Allgatherv passed) (\<lambda>recvs.
       Inr (map (\<lambda>((self, input, output), bytes). output\<lparr>storage := bytes\<rparr>)
              (zip calls recvs))))"


section \<open>DistributionIdentityOperator\<close>

text \<open>
  The reduction adds element values, so here an array is its shape and its elements, and
  the memory of a worker maps an address to the array stored there; two arguments alias
  when they are the same address.
\<close>

record 'a varray =
  vshape :: "int list"
  elements :: "'a list"

type_synonym addr = nat

type_synonym 'a memory = "addr \<Rightarrow> 'a varray"

text \<open>
  Modelled from the spec: \<open>Operator.same_data\<close> of \<open>pyoperators.core\<close> is not among the
  sources; the spec has it decide whether input and output alias the same storage.
\<close>

definition same_data :: "addr \<Rightarrow> addr \<Rightarrow> bool" where
  "same_data input output = (input = output)"

text \<open>\<open>output[...] = input\<close> in the memory of one worker; shapes as for \<open>setall\<close>.\<close>

definition copy_into :: "'a memory \<Rightarrow> addr \<Rightarrow> addr \<Rightarrow> error + 'a memory" where
  "copy_into mem output input =
     (if vshape (mem input) \<noteq> vshape (mem output) then Inl ShapeMismatch
      else Inr (mem(output := (mem output)\<lparr>elements := elements (mem input)\<rparr>)))"

text \<open>\<open>direct\<close>: nothing when the arguments alias, a copy otherwise.\<close>

definition DIO_direct :: "'a memory \<Rightarrow> addr \<Rightarrow> addr \<Rightarrow> error + 'a memory" where
  "DIO_direct mem input output =
     (if same_data input output then Inr mem else copy_into mem output input)"

text \<open>\<open>transpose\<close>, up to the call of the collective, on one worker.\<close>

definition DIO_transpose_local :: "'a memory \<Rightarrow> addr \<Rightarrow> addr \<Rightarrow> error + 'a memory" where
  "DIO_transpose_local mem input output =
     (if \<not> same_data input output then copy_into mem output input else Inr mem)"

text \<open>
  \<open>transpose\<close> on every worker of the group: the list holds, in rank order, each worker's
  memory, input and output; the result is each worker's memory afterwards.
\<close>

definition DIO_transpose ::
  "(('a::comm_monoid_add) memory \<times> addr \<times> addr) list \<Rightarrow> error + 'a memory list" where
  "DIO_transpose calls =
     and_then (traverse (\<lambda>(mem, input, output).
                 DIO_transpose_local mem input output) calls) (\<lambda>mems.
     and_then (Allreduce_sum (map (\<lambda>(mem, (_, _, output)). elements (mem output))
                 (zip mems calls))) (\<lambda>sums.
       Inr (map (\<lambda>((mem, (_, _, output)), total).
                   mem(output := (mem output)\<lparr>elements := total\<rparr>))
              (zip (zip mems calls) sums))))"


section \<open>Properties of the partition arithmetic\<close>

lemma distribute_shape_explicit:
  "gsize \<noteq> 0 \<Longrightarrow>
   distribute_shape world (nglobal # rest) (Some rank) (Some gsize) comm =
     Inr ((nglobal div gsize + (if nglobal mod gsize > rank then 1 else 0)) # rest)"
  by (simp add: distribute_shape_def tointtuple_def and_then_def floordiv_def pymod_def)

lemma distribute_slice_explicit:
  "gsize \<noteq> 0 \<Longrightarrow>
   distribute_slice world nglobal (Some rank) (Some gsize) comm =
     Inr (Slice (nglobal div gsize * rank + min rank (nglobal mod gsize))
            (nglobal div gsize * rank + min rank (nglobal mod gsize)
             + (nglobal div gsize + (if nglobal mod gsize > rank then 1 else 0))))"
  by (simp add: distribute_slice_def and_then_def floordiv_def pymod_def Let_def)

text \<open>
  Claim C6.  For a global extent \<open>n \<ge> 0\<close>, a group size \<open>s \<ge> 1\<close> and two ranks of the
  group, the local extents that \<open>distribute_shape\<close> computes differ by at most one, and
  the lower rank never gets the smaller extent: the remainder goes to the lowest ranks.
\<close>

theorem local_extent_balanced:
  assumes "0 \<le> n" and "1 \<le> s"
    and "0 \<le> r1" and "r1 < s" and "0 \<le> r2" and "r2 < s"
  shows "\<exists>e1 e2.
      distribute_shape world (n # rest) (Some r1) (Some s) comm = Inr (e1 # rest) \<and>
      distribute_shape world (n # rest) (Some r2) (Some s) comm = Inr (e2 # rest) \<and>
      \<bar>e1 - e2\<bar> \<le> 1 \<and> (r1 < r2 \<longrightarrow> e2 \<le> e1)"
proof -
  from assms(2) have nz: "s \<noteq> 0" by simp
  show ?thesis
    unfolding distribute_shape_explicit [OF nz] by auto
qed

theorem local_extent_balanced_witness:
  "\<exists>e1 e2.
      distribute_shape \<lparr>comm_rank = 0, comm_size = 3\<rparr> [16, 4] (Some 0) (Some 3) None
        = Inr [e1, 4] \<and>
      distribute_shape \<lparr>comm_rank = 0, comm_size = 3\<rparr> [16, 4] (Some 2) (Some 3) None
        = Inr [e2, 4] \<and>
      \<bar>e1 - e2\<bar> \<le> 1 \<and> e2 \<le> e1"
  using local_extent_balanced [of 16 3 0 2 "\<lparr>comm_rank = 0, comm_size = 3\<rparr>" "[4]" None]
  by simp

lemma telescope_int:
  fixes f :: "int \<Rightarrow> int"
  shows "0 \<le> k \<Longrightarrow> (\<Sum>r = 0..k - 1. f (r + 1) - f r) = f k - f 0"
proof (induction k rule: int_ge_induct)
  case base
  show ?case by simp
next
  case (step i)
  have "{0..i + 1 - 1} = insert i {0..i - 1}" using step.hyps by auto
  then show ?case using step by simp
qed

lemma start_step:
  fixes q m r :: int
  shows "q * (r + 1) + min (r + 1) m - (q * r + min r m) = q + (if m > r then 1 else 0)"
  by (simp add: algebra_simps min_def)

text \<open>
  Claim C1.  For a global extent \<open>n \<ge> 0\<close> and a group size \<open>s \<ge> 1\<close>, the local
  extents of the ranks \<open>0 .. s - 1\<close>, as the first dimension that \<open>distribute_shape\<close>
  returns and as the width of the slice that \<open>distribute_slice\<close> returns, add up to \<open>n\<close>.
\<close>

theorem local_extent_sum:
  assumes "0 \<le> n" and "1 \<le> s"
  shows "\<exists>ext.
      (\<forall>r. 0 \<le> r \<and> r < s \<longrightarrow>
         distribute_shape world (n # rest) (Some r) (Some s) comm = Inr (ext r # rest) \<and>
         (\<exists>sl. distribute_slice world n (Some r) (Some s) comm = Inr sl \<and>
               stop sl - start sl = ext r)) \<and>
      (\<Sum>r = 0..s - 1. ext r) = n"
proof -
  from assms(2) have nz: "s \<noteq> 0" and pos: "0 < s" by simp_all
  define q where "q = n div s"
  define m where "m = n mod s"
  define st where "st = (\<lambda>r. q * r + min r m)"
  define ext where "ext = (\<lambda>r. q + (if m > r then 1 else (0::int)))"
  have m_range: "0 \<le> m" "m < s" using pos by (simp_all add: m_def)
  have ext_eq: "ext r = st (r + 1) - st r" for r
    unfolding ext_def st_def by (rule start_step [symmetric])
  have "(\<Sum>r = 0..s - 1. ext r) = st s - st 0"
    unfolding ext_eq using telescope_int [of s st] pos by simp
  also have "\<dots> = q * s + m" using m_range by (simp add: st_def)
  also have "\<dots> = n" by (simp add: q_def m_def)
  finally have total: "(\<Sum>r = 0..s - 1. ext r) = n" .
  have "\<forall>r. 0 \<le> r \<and> r < s \<longrightarrow>
         distribute_shape world (n # rest) (Some r) (Some s) comm = Inr (ext r # rest) \<and>
         (\<exists>sl. distribute_slice world n (Some r) (Some s) comm = Inr sl \<and>
               stop sl - start sl = ext r)"
    by (simp add: distribute_shape_explicit [OF nz] distribute_slice_explicit [OF nz]
        ext_def q_def m_def)
  with total show ?thesis by blast
qed

theorem local_extent_sum_witness:
  "\<exists>ext.
      (\<forall>r. 0 \<le> r \<and> r < 3 \<longrightarrow>
         distribute_shape \<lparr>comm_rank = 0, comm_size = 3\<rparr> [16] (Some r) (Some 3) None
           = Inr [ext r] \<and>
         (\<exists>sl. distribute_slice \<lparr>comm_rank = 0, comm_size = 3\<rparr> 16 (Some r) (Some 3) None
                 = Inr sl \<and> stop sl - start sl = ext r)) \<and>
      (\<Sum>r = 0..3 - 1. ext r) = 16"
  using local_extent_sum [of 16 3 "\<lparr>comm_rank = 0, comm_size = 3\<rparr>" "[]" None]
  by simp

text \<open>
  Claim C2.  For a global extent \<open>n \<ge> 0\<close> and a group size \<open>s \<ge> 1\<close>, the slice that
  \<open>distribute_slice\<close> returns for a rank \<open>r\<close> of the group starts at
  \<open>(n // s) * r + min(r, n % s)\<close> and stops one local extent later, and the slices of the
  ranks \<open>0 .. s - 1\<close> tile \<open>[0, n)\<close>: the first starts at \<open>0\<close>, the last stops at \<open>n\<close>,
  and each stops where the next starts.
\<close>

theorem local_slices_tile:
  assumes "0 \<le> n" and "1 \<le> s"
  shows "\<exists>sl.
      (\<forall>r. 0 \<le> r \<and> r < s \<longrightarrow>
         distribute_slice world n (Some r) (Some s) comm = Inr (sl r) \<and>
         start (sl r) = n div s * r + min r (n mod s) \<and>
         (\<exists>e. distribute_shape world [n] (Some r) (Some s) comm = Inr [e] \<and>
              stop (sl r) = start (sl r) + e) \<and>
         start (sl r) \<le> stop (sl r)) \<and>
      start (sl 0) = 0 \<and> stop (sl (s - 1)) = n \<and>
      (\<forall>r. 0 \<le> r \<and> r < s - 1 \<longrightarrow> stop (sl r) = start (sl (r + 1)))"
proof -
  from assms(2) have nz: "s \<noteq> 0" and pos: "0 < s" by simp_all
  define q where "q = n div s"
  define m where "m = n mod s"
  define st where "st = (\<lambda>r. q * r + min r m)"
  define sl where "sl = (\<lambda>r. Slice (st r) (st (r + 1)))"
  have m_range: "0 \<le> m" "m < s" using pos by (simp_all add: m_def)
  have q_nonneg: "0 \<le> q" using assms pos by (simp add: q_def pos_imp_zdiv_nonneg_iff)
  have step: "st (r + 1) = st r + (q + (if m > r then 1 else 0))" for r
    using start_step [of q r m] by (simp add: st_def)
  have each: "distribute_slice world n (Some r) (Some s) comm = Inr (sl r) \<and>
         start (sl r) = n div s * r + min r (n mod s) \<and>
         (\<exists>e. distribute_shape world [n] (Some r) (Some s) comm = Inr [e] \<and>
              stop (sl r) = start (sl r) + e) \<and>
         start (sl r) \<le> stop (sl r)" for r
    using q_nonneg
    by (simp add: distribute_slice_explicit [OF nz] distribute_shape_explicit [OF nz]
        sl_def step) (simp add: st_def q_def m_def)
  have first: "start (sl 0) = 0" using m_range by (simp add: sl_def st_def)
  have "st s = q * s + m" using m_range by (simp add: st_def)
  then have last: "stop (sl (s - 1)) = n" by (simp add: sl_def q_def m_def)
  have adjacent: "stop (sl r) = start (sl (r + 1))" for r by (simp add: sl_def)
  from each first last adjacent show ?thesis by blast
qed

theorem local_slices_tile_witness:
  "\<exists>sl.
      (\<forall>r. 0 \<le> r \<and> r < 3 \<longrightarrow>
         distribute_slice \<lparr>comm_rank = 0, comm_size = 3\<rparr> 16 (Some r) (Some 3) None
           = Inr (sl r) \<and>
         start (sl r) = 16 div 3 * r + min r (16 mod 3) \<and>
         (\<exists>e. distribute_shape \<lparr>comm_rank = 0, comm_size = 3\<rparr> [16] (Some r) (Some 3) None
                = Inr [e] \<and>
              stop (sl r) = start (sl r) + e) \<and>
         start (sl r) \<le> stop (sl r)) \<and>
      start (sl 0) = 0 \<and> stop (sl (3 - 1)) = 16 \<and>
      (\<forall>r. 0 \<le> r \<and> r < 3 - 1 \<longrightarrow> stop (sl r) = start (sl (r + 1)))"
  using local_slices_tile [of 16 3 "\<lparr>comm_rank = 0, comm_size = 3\<rparr>" None]
  by simp

text \<open>
  Claim C4, as the code has it.  Neither function checks its arguments.  Both fail when
  the size is \<open>0\<close>, with the division error; for every other size, negative ones too, and
  for every rank and every global extent they return the value of their formulas.
\<close>

theorem partition_unchecked:
  "(s = 0 \<longrightarrow>
      distribute_slice world n (Some r) (Some s) comm = Inl ZeroDivisionError \<and>
      distribute_shape world (n # rest) (Some r) (Some s) comm = Inl ZeroDivisionError) \<and>
   (s \<noteq> 0 \<longrightarrow>
      distribute_slice world n (Some r) (Some s) comm =
        Inr (Slice (n div s * r + min r (n mod s))
               (n div s * r + min r (n mod s) + (n div s + (if n mod s > r then 1 else 0)))) \<and>
      distribute_shape world (n # rest) (Some r) (Some s) comm =
        Inr ((n div s + (if n mod s > r then 1 else 0)) # rest))"
  by (simp add: distribute_slice_def distribute_shape_def tointtuple_def and_then_def
      floordiv_def pymod_def Let_def)

theorem partition_unchecked_witness:
  "distribute_slice \<lparr>comm_rank = 0, comm_size = 3\<rparr> 16 (Some 1) (Some 0) None
     = Inl ZeroDivisionError \<and>
   distribute_shape \<lparr>comm_rank = 0, comm_size = 3\<rparr> [16, 4] (Some 1) (Some 0) None
     = Inl ZeroDivisionError \<and>
   distribute_slice \<lparr>comm_rank = 0, comm_size = 3\<rparr> 16 (Some 7) (Some 3) None
     = Inr (Slice 36 41) \<and>
   distribute_shape \<lparr>comm_rank = 0, comm_size = 3\<rparr> [16, 4] (Some 7) (Some 3) None
     = Inr [5, 4]"
  using partition_unchecked [of 0 "\<lparr>comm_rank = 0, comm_size = 3\<rparr>" 16 1 None "[4]"]
    partition_unchecked [of 3 "\<lparr>comm_rank = 0, comm_size = 3\<rparr>" 16 7 None "[4]"]
  by simp

text \<open>
  Claim C4, as the spec states it, fails: a negative global extent, a rank outside the
  group and a negative size each give an ordinary value.
\<close>

theorem partition_precondition_counterexample:
  "distribute_slice \<lparr>comm_rank = 0, comm_size = 1\<rparr> (- 1) (Some 0) (Some 1) None
     = Inr (Slice 0 (- 1)) \<and>
   distribute_shape \<lparr>comm_rank = 0, comm_size = 1\<rparr> [- 1] (Some 0) (Some 1) None
     = Inr [- 1] \<and>
   distribute_slice \<lparr>comm_rank = 0, comm_size = 1\<rparr> 10 (Some 5) (Some 3) None
     = Inr (Slice 16 19) \<and>
   distribute_shape \<lparr>comm_rank = 0, comm_size = 1\<rparr> [10] (Some 5) (Some 3) None
     = Inr [3] \<and>
   distribute_slice \<lparr>comm_rank = 0, comm_size = 1\<rparr> 10 (Some 0) (Some (- 3)) None
     = Inr (Slice (- 2) (- 6)) \<and>
   distribute_shape \<lparr>comm_rank = 0, comm_size = 1\<rparr> [10] (Some 0) (Some (- 3)) None
     = Inr [- 4]"
  by (simp add: distribute_slice_def distribute_shape_def tointtuple_def and_then_def
      floordiv_def pymod_def Let_def)

text \<open>
  Claim C7.  \<open>distribute_shape\<close> on the empty shape raises \<open>ValueError\<close> when the size
  exceeds \<open>1\<close> and returns the empty shape otherwise, so for size \<open>1\<close>.  On a shape with
  a first dimension it returns the shape with that dimension replaced by the local
  extent, the width of the slice of \<open>distribute_slice\<close>, and the other dimensions as they
  are; where the extent itself is an error, that error is the result.
\<close>

theorem distribute_shape_cases:
  "(1 < s \<longrightarrow> distribute_shape world [] (Some r) (Some s) comm = Inl ValueError) \<and>
   (s \<le> 1 \<longrightarrow> distribute_shape world [] (Some r) (Some s) comm = Inr []) \<and>
   distribute_shape world [] (Some r) (Some 1) comm = Inr [] \<and>
   distribute_shape world (n # rest) (Some r) (Some s) comm =
     (case distribute_slice world n (Some r) (Some s) comm of
        Inl e \<Rightarrow> Inl e
      | Inr sl \<Rightarrow> Inr ((stop sl - start sl) # rest)) \<and>
   (s \<noteq> 0 \<longrightarrow> distribute_shape world (n # rest) (Some r) (Some s) comm =
       Inr ((n div s + (if n mod s > r then 1 else 0)) # rest))"
  by (simp add: distribute_slice_def distribute_shape_def tointtuple_def and_then_def
      floordiv_def pymod_def Let_def)

theorem distribute_shape_cases_witness:
  "distribute_shape \<lparr>comm_rank = 0, comm_size = 3\<rparr> [] (Some 1) (Some 3) None
     = Inl ValueError \<and>
   distribute_shape \<lparr>comm_rank = 0, comm_size = 3\<rparr> [] (Some 1) (Some 1) None = Inr [] \<and>
   distribute_shape \<lparr>comm_rank = 0, comm_size = 3\<rparr> [16, 2] (Some 1) (Some 3) None
     = Inr [5, 2]"
  using distribute_shape_cases [of 3 "\<lparr>comm_rank = 0, comm_size = 3\<rparr>" 1 None 16 "[2]"]
  by auto

subsection \<open>DistributionIdentityOperator\<close>

lemma traverse_all_Inr:
  "(\<And>x. x \<in> set xs \<Longrightarrow> f x = Inr (g x)) \<Longrightarrow> traverse f xs = Inr (map g xs)"
  by (induction xs) (simp_all add: and_then_def)

lemma foldl_add_pointwise:
  fixes b :: "('a::comm_monoid_add) list"
  assumes "\<forall>x \<in> set bs. length x = length b"
  shows "length (foldl (\<lambda>acc x. map2 (+) acc x) b bs) = length b \<and>
         (\<forall>j < length b. foldl (\<lambda>acc x. map2 (+) acc x) b bs ! j
                           = b ! j + sum_list (map (\<lambda>x. x ! j) bs))"
  using assms
proof (induction bs arbitrary: b)
  case Nil
  show ?case by simp
next
  case (Cons x xs)
  have len: "length (map2 (+) b x) = length b" using Cons.prems by simp
  have "\<forall>y \<in> set xs. length y = length (map2 (+) b x)" using Cons.prems len by simp
  from Cons.IH [OF this] show ?case
    using Cons.prems by (simp add: add.assoc)
qed

lemma Allreduce_sum_result:
  fixes bufs :: "('a::comm_monoid_add) list list"
  assumes "bufs \<noteq> []" and "\<forall>x \<in> set bufs. length x = len"
  shows "Allreduce_sum bufs =
     Inr (replicate (length bufs) (map (\<lambda>j. sum_list (map (\<lambda>x. x ! j) bufs)) [0..<len]))"
proof -
  from assms(1) obtain b bs where bufs: "bufs = b # bs" by (cases bufs) auto
  with assms(2) have same: "\<forall>x \<in> set bs. length x = length b" and lb: "length b = len"
    by simp_all
  let ?total = "foldl (\<lambda>acc x. map2 (+) acc x) b bs"
  from foldl_add_pointwise [OF same]
  have "length ?total = len"
    and "\<forall>j < len. ?total ! j = sum_list (map (\<lambda>x. x ! j) bufs)"
    by (simp_all add: lb bufs)
  then have "?total = map (\<lambda>j. sum_list (map (\<lambda>x. x ! j) bufs)) [0..<len]"
    by (intro nth_equalityI) simp_all
  moreover have "Allreduce_sum bufs = Inr (map (\<lambda>_. ?total) bufs)"
    using same by (simp add: Allreduce_sum_def bufs)
  ultimately show ?thesis by (simp add: map_replicate_const)
qed

text \<open>
  Claim C9.  \<open>direct\<close> leaves in the output what the input holds, and touches nothing
  else in the worker's memory.  When the two alias, the memory is unchanged; otherwise
  (for arguments of one shape) the output receives a full copy of the input.
\<close>

theorem DIO_direct_identity:
  assumes "same_data inp out \<or> vshape (mem inp) = vshape (mem out)"
  shows "\<exists>mem'. DIO_direct mem inp out = Inr mem' \<and>
      mem' out = mem inp \<and>
      (\<forall>a. a \<noteq> out \<longrightarrow> mem' a = mem a) \<and>
      (same_data inp out \<longrightarrow> mem' = mem) \<and>
      (\<not> same_data inp out \<longrightarrow> mem' = mem(out := mem inp))"
proof (cases "same_data inp out")
  case True
  then show ?thesis by (simp add: DIO_direct_def same_data_def)
next
  case False
  with assms have shp: "vshape (mem inp) = vshape (mem out)" by simp
  then have copy: "(mem out)\<lparr>elements := elements (mem inp)\<rparr> = mem inp"
    by (intro varray.equality) simp_all
  have "DIO_direct mem inp out = Inr (mem(out := mem inp))"
    using False shp by (simp add: DIO_direct_def copy_into_def copy)
  with False show ?thesis by simp
qed

theorem DIO_direct_identity_witness:
  "\<exists>mem'. DIO_direct (\<lambda>a. if a = 0 then \<lparr>vshape = [3], elements = [1, 2, 3::int]\<rparr>
                              else \<lparr>vshape = [3], elements = [0, 0, 0]\<rparr>) 0 1 = Inr mem' \<and>
      mem' 1 = \<lparr>vshape = [3], elements = [1, 2, 3]\<rparr> \<and>
      mem' 0 = \<lparr>vshape = [3], elements = [1, 2, 3]\<rparr>"
  using DIO_direct_identity [where inp = 0 and out = 1
      and mem = "\<lambda>a. if a = 0 then \<lparr>vshape = [3], elements = [1, 2, 3::int]\<rparr>
                       else \<lparr>vshape = [3], elements = [0, 0, 0]\<rparr>"]
  by (auto simp add: same_data_def)

text \<open>
  Claim C8.  On a group of at least one worker, where worker \<open>i\<close> calls \<open>transpose\<close> on
  the memory \<open>mems i\<close> with the input at \<open>ins i\<close> and the output at \<open>outs i\<close>, all of
  one shape, the call succeeds on every worker and leaves in every worker's output the
  same array: the element-wise sum of all the inputs.  Nothing but the output changes
  in a worker's memory, so an input that does not alias the output is kept, and one that
  does is reduced in place.
\<close>

theorem DIO_transpose_allreduce:
  fixes calls :: "(('a::comm_monoid_add) memory \<times> addr \<times> addr) list"
  assumes "calls \<noteq> []"
    and "\<forall>i < length calls. calls ! i = (mems i, ins i, outs i)"
    and "\<forall>i < length calls. vshape (mems i (ins i)) = shp \<and> vshape (mems i (outs i)) = shp \<and>
           length (elements (mems i (ins i))) = len"
  shows "\<exists>mems'. DIO_transpose calls = Inr mems' \<and> length mems' = length calls \<and>
     (\<forall>w < length calls.
        elements ((mems' ! w) (outs w)) =
          map (\<lambda>j. \<Sum>i < length calls. elements (mems i (ins i)) ! j) [0..<len] \<and>
        vshape ((mems' ! w) (outs w)) = shp \<and>
        (\<forall>a. a \<noteq> outs w \<longrightarrow> (mems' ! w) a = mems w a))"
proof -
  define N where "N = length calls"
  define after :: "'a memory \<times> addr \<times> addr \<Rightarrow> 'a memory" where
    "after = (\<lambda>(mem, inp, out).
       if inp = out then mem else mem(out := (mem out)\<lparr>elements := elements (mem inp)\<rparr>))"
  define Ls where "Ls = map (\<lambda>(mem, inp, out). elements (mem inp)) calls"
  define total where "total = map (\<lambda>j. sum_list (map (\<lambda>x. x ! j) Ls)) [0..<len]"
  have call: "calls ! i = (mems i, ins i, outs i)" if "i < N" for i
    using assms(2) that by (simp add: N_def)
  have shapes: "vshape (mems i (ins i)) = shp" "vshape (mems i (outs i)) = shp"
    "length (elements (mems i (ins i))) = len" if "i < N" for i
    using assms(3) that by (simp_all add: N_def)
  have local: "(case x of (mem, inp, out) \<Rightarrow> DIO_transpose_local mem inp out) = Inr (after x)"
    if "x \<in> set calls" for x
  proof -
    from that obtain i where "i < N" and "x = calls ! i"
      by (auto simp add: in_set_conv_nth N_def)
    then have "x = (mems i, ins i, outs i)" by (simp add: call)
    then show ?thesis
      using shapes [OF \<open>i < N\<close>]
      by (simp add: DIO_transpose_local_def copy_into_def same_data_def after_def)
  qed
  have step1: "traverse (\<lambda>(mem, inp, out). DIO_transpose_local mem inp out) calls
      = Inr (map after calls)"
    by (rule traverse_all_Inr) (rule local)
  have bufs: "map (\<lambda>(mem, (_, _, out)). elements (mem out)) (zip (map after calls) calls) = Ls"
    unfolding Ls_def
    by (rule nth_equalityI) (auto simp add: after_def split: prod.splits)
  have Ls_nth: "Ls ! i = elements (mems i (ins i))" if "i < N" for i
    using that by (simp add: Ls_def N_def call [OF that, unfolded N_def])
  have len_Ls: "length Ls = N" by (simp add: Ls_def N_def)
  have "Ls \<noteq> []" using assms(1) by (simp add: Ls_def)
  moreover have "\<forall>x \<in> set Ls. length x = len"
    using Ls_nth shapes(3) len_Ls by (auto simp add: in_set_conv_nth)
  ultimately have reduce: "Allreduce_sum Ls = Inr (replicate N total)"
    using Allreduce_sum_result [of Ls len] by (simp add: total_def len_Ls)
  define mems' where "mems' = map (\<lambda>((mem, (_, _, out)), t). mem(out := (mem out)\<lparr>elements := t\<rparr>))
      (zip (zip (map after calls) calls) (replicate N total))"
  have run: "DIO_transpose calls = Inr mems'"
    by (simp add: DIO_transpose_def step1 and_then_def bufs reduce mems'_def)
  have len': "length mems' = length calls" by (simp add: mems'_def N_def)
  have total_eq: "total = map (\<lambda>j. \<Sum>i < length calls. elements (mems i (ins i)) ! j) [0..<len]"
  proof -
    have "sum_list (map (\<lambda>x. x ! j) Ls) = (\<Sum>i < N. elements (mems i (ins i)) ! j)" for j
    proof -
      have "sum_list (map (\<lambda>x. x ! j) Ls) = (\<Sum>i = 0..<N. map (\<lambda>x. x ! j) Ls ! i)"
        using sum_list_sum_nth [of "map (\<lambda>x. x ! j) Ls"] by (simp add: len_Ls)
      also have "\<dots> = (\<Sum>i = 0..<N. elements (mems i (ins i)) ! j)"
        by (rule sum.cong) (simp_all add: len_Ls Ls_nth)
      finally show ?thesis by (simp add: atLeast0LessThan)
    qed
    then show ?thesis by (simp add: total_def N_def)
  qed
  have each: "elements ((mems' ! w) (outs w)) = total \<and>
        vshape ((mems' ! w) (outs w)) = shp \<and>
        (\<forall>a. a \<noteq> outs w \<longrightarrow> (mems' ! w) a = mems w a)" if "w < N" for w
  proof -
    have "mems' ! w = (after (calls ! w))(outs w :=
        (after (calls ! w) (outs w))\<lparr>elements := total\<rparr>)"
      using that by (simp add: mems'_def N_def call [OF that, unfolded N_def])
    then show ?thesis
      using shapes [OF that] by (simp add: call [OF that] after_def)
  qed
  from run len' each show ?thesis unfolding total_eq N_def by blast
qed

theorem DIO_transpose_allreduce_witness:
  "\<exists>mems'. DIO_transpose
       [(\<lambda>a. \<lparr>vshape = [3], elements = [1, 1, 1::int]\<rparr>, 0, 0),
        (\<lambda>a. \<lparr>vshape = [3], elements = [2, 2, 2]\<rparr>, 0, 1),
        (\<lambda>a. \<lparr>vshape = [3], elements = [3, 3, 3]\<rparr>, 0, 0)] = Inr mems' \<and>
     length mems' = 3 \<and>
     (\<forall>w < 3.
        elements ((mems' ! w) (if w = 1 then 1 else 0)) = [6, 6, 6] \<and>
        vshape ((mems' ! w) (if w = 1 then 1 else 0)) = [3] \<and>
        (\<forall>a. a \<noteq> (if w = 1 then 1 else 0) \<longrightarrow>
           (mems' ! w) a = \<lparr>vshape = [3], elements = [1 + int w, 1 + int w, 1 + int w]\<rparr>))"
proof -
  let ?m = "\<lambda>i::nat. (\<lambda>a::addr. \<lparr>vshape = [3::int], elements = [1 + int i, 1 + int i, 1 + int i]\<rparr>)"
  let ?ins = "\<lambda>i::nat. 0::addr"
  let ?outs = "\<lambda>i::nat. if i = 1 then 1 else (0::addr)"
  let ?calls = "[(\<lambda>a. \<lparr>vshape = [3], elements = [1, 1, 1::int]\<rparr>, 0, 0),
        (\<lambda>a. \<lparr>vshape = [3], elements = [2, 2, 2]\<rparr>, 0, 1),
        (\<lambda>a. \<lparr>vshape = [3], elements = [3, 3, 3]\<rparr>, 0, 0)]"
  have a: "?calls \<noteq> []" by simp
  have b: "\<forall>i < length ?calls. ?calls ! i = (?m i, ?ins i, ?outs i)"
    by (simp add: less_Suc_eq)
  have c: "\<forall>i < length ?calls. vshape (?m i (?ins i)) = [3] \<and> vshape (?m i (?outs i)) = [3] \<and>
           length (elements (?m i (?ins i))) = 3"
    by simp
  show ?thesis
    using DIO_transpose_allreduce [OF a b c] by (simp add: numeral_3_eq_3)
qed

subsection \<open>The constructor\<close>

lemma distribute_slice_of_comm:
  "distribute_slice world n rank None (Some c) =
     distribute_slice world n (Some (case rank of None \<Rightarrow> comm_rank c | Some r \<Rightarrow> r))
       (Some (comm_size c)) None"
  by (simp add: distribute_slice_def split: option.splits)

lemma distribute_shape_of_comm:
  "distribute_shape world shp None None (Some c) =
     distribute_shape world shp (Some (comm_rank c)) (Some (comm_size c)) None"
  by (simp add: distribute_shape_def)

lemma sint_word_of_int_64:
  "fits_int64 v \<Longrightarrow> sint (word_of_int v :: 64 word) = v"
  by (simp add: sint_sbintrunc' signed_take_bit_int_eq_self fits_int64_def)

lemma prod_list_word_of_int:
  "prod_list (map word_of_int xs) = (word_of_int (prod_list xs) :: 64 word)"
  by (induction xs) simp_all

text \<open>
  The loop, when every operation of numpy it performs succeeds: \<open>cnt r\<close> is the count of
  rank \<open>r\<close> and \<open>acc k\<close> the last offset after \<open>k\<close> rounds.
\<close>

lemma partition_loop_result:
  assumes "\<forall>r \<in> set ranks. distribute_slice world n (Some r) None (Some cout) = Inr (sl r)"
    and "np_product rest = Inr p"
    and "\<forall>r \<in> set ranks. num_mul (PyInt (stop (sl r) - start (sl r))) p = Inr (cnt r)"
    and "offs \<noteq> []" and "acc 0 = last offs"
    and "\<forall>k < length ranks. num_add (acc k) (cnt (ranks ! k)) = Inr (acc (Suc k))"
  shows "partition_loop world (n # rest) cout ranks (cnts, offs) =
     Inr (cnts @ map cnt ranks, offs @ map (\<lambda>k. acc (Suc k)) [0..<length ranks])"
  using assms(1,3,4,5,6)
proof (induction ranks arbitrary: cnts offs acc)
  case Nil
  show ?case by simp
next
  case (Cons r rs)
  from Cons.prems(3) obtain o1 os where offs: "offs = o1 # os" by (cases offs) auto
  have slr: "distribute_slice world n (Some r) None (Some cout) = Inr (sl r)"
    using Cons.prems(1) by simp
  have mulr: "num_mul (PyInt (stop (sl r) - start (sl r))) p = Inr (cnt r)"
    using Cons.prems(2) by simp
  have addr: "num_add (last offs) (cnt r) = Inr (acc (Suc 0))"
    using Cons.prems(5) [rule_format, of 0] Cons.prems(4) by simp
  have unfold: "partition_loop world (n # rest) cout (r # rs) (cnts, offs) =
      partition_loop world (n # rest) cout rs (cnts @ [cnt r], offs @ [acc (Suc 0)])"
    using addr by (simp add: first_item_def and_then_def slr assms(2) mulr offs)
  have IH: "partition_loop world (n # rest) cout rs (cnts @ [cnt r], offs @ [acc (Suc 0)]) =
      Inr ((cnts @ [cnt r]) @ map cnt rs,
           (offs @ [acc (Suc 0)]) @ map (\<lambda>k. acc (Suc (Suc k))) [0..<length rs])"
  proof (rule Cons.IH [where acc = "\<lambda>k. acc (Suc k)"])
    show "\<forall>r \<in> set rs. distribute_slice world n (Some r) None (Some cout) = Inr (sl r)"
      using Cons.prems(1) by simp
    show "\<forall>r \<in> set rs. num_mul (PyInt (stop (sl r) - start (sl r))) p = Inr (cnt r)"
      using Cons.prems(2) by simp
    show "offs @ [acc (Suc 0)] \<noteq> []" by simp
    show "acc (Suc 0) = last (offs @ [acc (Suc 0)])" by simp
    show "\<forall>k < length rs. num_add (acc (Suc k)) (cnt (rs ! k)) = Inr (acc (Suc (Suc k)))"
      using Cons.prems(5) by auto
  qed
  have shift: "[0..<length (r # rs)] = 0 # map Suc [0..<length rs]"
    by (simp add: upt_conv_Cons map_Suc_upt del: upt_Suc)
  show ?case
    unfolding unfold IH shift by (simp add: o_def)
qed

lemma start_bounds:
  fixes n N r :: int
  assumes "0 \<le> n" and "0 < N" and "0 \<le> r" and "r \<le> N"
  shows "0 \<le> n div N * r + min r (n mod N)" and "n div N * r + min r (n mod N) \<le> n"
proof -
  have q: "0 \<le> n div N" using assms(1,2) by (simp add: pos_imp_zdiv_nonneg_iff)
  have m: "0 \<le> n mod N" using assms(2) by simp
  show "0 \<le> n div N * r + min r (n mod N)" using q m assms(3) by simp
  have "n div N * r \<le> n div N * N" using q assms(4) by (simp add: mult_left_mono)
  moreover have "min r (n mod N) \<le> n mod N" by simp
  moreover have "n div N * N + n mod N = n" by simp
  ultimately show "n div N * r + min r (n mod N) \<le> n" by linarith
qed

text \<open>
  The constructor for a shape \<open>(n, ...)\<close> with \<open>n \<ge> 0\<close> on a group of \<open>s \<ge> 1\<close> workers,
  within the ranges of the model: the counts and offsets are floats for a shape of one
  dimension and wrapped \<open>int64\<close> otherwise, but for the initial offset, the Python \<open>0\<close>.
\<close>

lemma DGO_init_result:
  assumes size_c: "comm_size (case cout of None \<Rightarrow> world | Some c \<Rightarrow> c) = s"
    and pos: "0 < s" and n0: "0 \<le> n"
    and range: "if rest = [] then n \<le> 2 ^ 53
      else list_all fits_int64 rest \<and>
           (\<forall>r. 0 \<le> r \<and> r < s \<longrightarrow> fits_int64 (n div s + (if n mod s > r then 1 else 0)))"
  shows "\<exists>self. DGO_init world (Some (n # rest)) cout = Inr self \<and>
      commout self = (case cout of None \<Rightarrow> world | Some c \<Rightarrow> c) \<and>
      shapein self = n # rest \<and>
      shapeout self = (n div s + (if n mod s > comm_rank (commout self) then 1 else 0)) # rest \<and>
      slice self = Slice (n div s * comm_rank (commout self) + min (comm_rank (commout self)) (n mod s))
                     (n div s * comm_rank (commout self) + min (comm_rank (commout self)) (n mod s)
                      + (n div s + (if n mod s > comm_rank (commout self) then 1 else 0))) \<and>
      length (counts self) = nat s \<and> length (offsets self) = nat s \<and>
      (\<forall>i < nat s. counts self ! i =
         (if rest = [] then NpFloat64 (n div s + (if n mod s > int i then 1 else 0))
          else NpInt64 (word_of_int
                 ((n div s + (if n mod s > int i then 1 else 0)) * prod_list rest)))) \<and>
      offsets self ! 0 = PyInt 0 \<and>
      (\<forall>i < nat s. 0 < i \<longrightarrow> offsets self ! i =
         (if rest = [] then NpFloat64 (n div s * int i + min (int i) (n mod s))
          else NpInt64 (word_of_int
                 ((n div s * int i + min (int i) (n mod s)) * prod_list rest)))) \<and>
      (\<forall>i. Suc i < nat s \<longrightarrow>
         num_add (offsets self ! i) (counts self ! i) = Inr (offsets self ! Suc i))"
proof -
  define c where "c = (case cout of None \<Rightarrow> world | Some c \<Rightarrow> c)"
  define q where "q = n div s"
  define m where "m = n mod s"
  define st where "st = (\<lambda>r. q * r + min r m)"
  define ext where "ext = (\<lambda>r. q + (if m > r then 1 else (0::int)))"
  define sl where "sl = (\<lambda>r. Slice (st r) (st (r + 1)))"
  define mk where "mk = (\<lambda>v. if rest = [] then NpFloat64 v
      else NpInt64 (word_of_int (v * prod_list rest)))"
  define p where "p = (if rest = [] then NpFloat64 1
      else NpInt64 (word_of_int (prod_list rest)))"
  define cnt where "cnt = (\<lambda>r. mk (ext r))"
  define acc where "acc = (\<lambda>k. if k = 0 then PyInt 0 else mk (st (int k)))"
  define R where "R = [0..s - 1]"
  define M where "M = nat s"
  have sz: "comm_size c = s" and nz: "s \<noteq> 0" using size_c pos by (simp_all add: c_def)
  have m_range: "0 \<le> m" "m < s" using pos by (simp_all add: m_def)
  have q0: "0 \<le> q" using n0 pos by (simp add: q_def pos_imp_zdiv_nonneg_iff)
  have ext0: "0 \<le> ext r" for r using q0 by (simp add: ext_def)
  have step: "st (r + 1) = st r + ext r" for r
    using start_step [of q r m] by (simp add: st_def ext_def)
  have st_lo: "0 \<le> st r" and st_hi: "st r \<le> n" if "0 \<le> r" "r \<le> s" for r
    using start_bounds [OF n0 pos that] by (simp_all add: st_def q_def m_def)
  have st0: "st 0 = 0" using m_range by (simp add: st_def)
  have ext_hi: "ext r \<le> n" if "0 \<le> r" "r < s" for r
    using step [of r] st_lo [of r] st_hi [of "r + 1"] that by simp
  have len_R: "length R = M" using pos by (simp add: R_def M_def)
  have R_nth: "R ! k = int k" if "k < M" for k
    using that by (simp add: R_def M_def)
  have in_R: "0 \<le> r \<and> r < s" if "r \<in> set R" for r
    using that by (simp add: R_def)
  have slice_r: "distribute_slice world n (Some r) None (Some c) = Inr (sl r)" for r
    by (simp add: distribute_slice_of_comm sz distribute_slice_explicit [OF nz] sl_def step)
      (simp add: st_def ext_def q_def m_def)
  have slice_own: "distribute_slice world n None None (Some c) = Inr (sl (comm_rank c))"
    by (simp add: distribute_slice_of_comm sz distribute_slice_explicit [OF nz] sl_def step)
      (simp add: st_def ext_def q_def m_def)
  have shape_own: "distribute_shape world (n # rest) None None (Some c) =
      Inr (ext (comm_rank c) # rest)"
    by (simp add: distribute_shape_of_comm sz distribute_shape_explicit [OF nz]
        ext_def q_def m_def)
  have width: "stop (sl r) - start (sl r) = ext r" for r
    by (simp add: sl_def step)
  have prod: "np_product rest = Inr p"
    using range by (simp add: np_product_def p_def prod_list_word_of_int)
  have mul: "num_mul (PyInt (ext r)) p = Inr (cnt r)" if "0 \<le> r" "r < s" for r
  proof (cases "rest = []")
    case True
    with range have "n \<le> 2 ^ 53" by simp
    with ext0 [of r] ext_hi [OF that] have "exact_float (ext r)"
      by (simp add: exact_float_def)
    then show ?thesis using True by (simp add: p_def cnt_def mk_def float_of_def)
  next
    case False
    with range that have "fits_int64 (ext r)" by (simp add: ext_def q_def m_def)
    then show ?thesis using False by (simp add: p_def cnt_def mk_def)
  qed
  have add: "num_add (acc k) (cnt (int k)) = Inr (acc (Suc k))" if "k < M" for k
  proof -
    from that have k: "0 \<le> int k" "int k < s" "int k + 1 \<le> s" by (simp_all add: M_def)
    have next_st: "st (int (Suc k)) = st (int k) + ext (int k)"
      using step [of "int k"] by (simp add: add.commute)
    show ?thesis
    proof (cases "rest = []")
      case True
      with range have small: "n \<le> 2 ^ 53" by simp
      have "0 \<le> st (int (Suc k))" and "st (int (Suc k)) \<le> n"
        using st_lo [of "int k + 1"] st_hi [of "int k + 1"] k by (simp_all add: add.commute)
      with small have e1: "exact_float (st (int (Suc k)))" by (simp add: exact_float_def)
      have e0: "exact_float 0" by (simp add: exact_float_def)
      show ?thesis
      proof (cases k)
        case 0
        then show ?thesis
          using True e0 e1 next_st st0
          by (simp add: acc_def cnt_def mk_def float_of_def)
      next
        case (Suc j)
        then show ?thesis
          using True e1 next_st by (simp add: acc_def cnt_def mk_def float_of_def)
      qed
    next
      case False
      have f0: "fits_int64 0" by (simp add: fits_int64_def)
      show ?thesis
      proof (cases k)
        case 0
        then show ?thesis
          using False f0 next_st st0 by (simp add: acc_def cnt_def mk_def)
      next
        case (Suc j)
        then show ?thesis
          using False next_st by (simp add: acc_def cnt_def mk_def algebra_simps)
      qed
    qed
  qed
  have loop: "partition_loop world (n # rest) c R ([], [PyInt 0]) =
      Inr ([] @ map cnt R, [PyInt 0] @ map (\<lambda>k. acc (Suc k)) [0..<length R])"
  proof (rule partition_loop_result [where sl = sl and p = p])
    show "\<forall>r \<in> set R. distribute_slice world n (Some r) None (Some c) = Inr (sl r)"
      using slice_r by simp
    show "np_product rest = Inr p" by (rule prod)
    show "\<forall>r \<in> set R. num_mul (PyInt (stop (sl r) - start (sl r))) p = Inr (cnt r)"
      using mul in_R by (simp add: width)
    show "[PyInt 0] \<noteq> []" by simp
    show "acc 0 = last [PyInt 0]" by (simp add: acc_def)
    show "\<forall>k < length R. num_add (acc k) (cnt (R ! k)) = Inr (acc (Suc k))"
      using add by (simp add: len_R R_nth)
  qed
  define self where "self = \<lparr>commout = c, shapein = n # rest,
      shapeout = ext (comm_rank c) # rest, slice = sl (comm_rank c),
      counts = map cnt R,
      offsets = butlast (PyInt 0 # map (\<lambda>k. acc (Suc k)) [0..<M])\<rparr>"
  have init: "DGO_init world (Some (n # rest)) cout = Inr self"
    using loop
    by (simp add: DGO_init_def c_def [symmetric] shape_own slice_own first_item_def
        and_then_def sz R_def [symmetric] self_def len_R)
  have counts_nth: "counts self ! i = mk (ext (int i))" if "i < M" for i
    using that by (simp add: self_def len_R R_nth cnt_def)
  have offsets_nth: "offsets self ! i = acc i" if "i < M" for i
  proof -
    let ?L = "PyInt 0 # map (\<lambda>k. acc (Suc k)) [0..<M]"
    have "offsets self = butlast ?L" by (simp add: self_def)
    moreover have "i < length (butlast ?L)" using that by simp
    ultimately have "offsets self ! i = ?L ! i" by (simp only: nth_butlast)
    also have "\<dots> = acc i" using that by (cases i) (simp_all add: acc_def)
    finally show ?thesis .
  qed
  have Mpos: "0 < M" using pos by (simp add: M_def)
  have fields: "commout self = c" "shapein self = n # rest"
    "shapeout self = ext (comm_rank c) # rest"
    "slice self = Slice (st (comm_rank c)) (st (comm_rank c) + ext (comm_rank c))"
    "length (counts self) = M" "length (offsets self) = M"
    by (simp_all add: self_def len_R sl_def step)
  have off0: "offsets self ! 0 = PyInt 0"
    using offsets_nth [OF Mpos] by (simp add: acc_def)
  have offs: "offsets self ! i = mk (st (int i))" if "i < M" "0 < i" for i
    using offsets_nth [OF that(1)] that(2) by (simp add: acc_def)
  have rec: "num_add (offsets self ! i) (counts self ! i) = Inr (offsets self ! Suc i)"
    if "Suc i < M" for i
  proof -
    from that have "i < M" by simp
    then show ?thesis
      using add [of i] offsets_nth [of i] offsets_nth [OF that] counts_nth [of i]
      by (simp add: cnt_def)
  qed
  from init fields counts_nth off0 offs rec show ?thesis
    unfolding c_def q_def m_def st_def ext_def mk_def M_def
    by (intro exI [of _ self]) simp
qed

lemma prod_list_nonneg_int: "\<forall>d \<in> set xs. (0::int) \<le> d \<Longrightarrow> 0 \<le> prod_list xs"
  by (induction xs) simp_all

lemma prod_list_pos_int: "\<forall>d \<in> set xs. (0::int) < d \<Longrightarrow> 0 < prod_list xs"
  by (induction xs) simp_all

text \<open>
  Claim C5, as the code has it.  Take a shape with a first dimension, dimensions that are
  not negative and fit \<open>int64\<close> (for a shape of one dimension: a first dimension of at
  most \<open>2^53\<close>), and a group of size \<open>N \<ge> 1\<close>.  The constructor succeeds.  \<open>counts[r]\<close> is
  the local extent of rank \<open>r\<close> times the product of the other dimensions in numpy's
  arithmetic: a \<open>float64\<close> for a shape of one dimension, an \<open>int64\<close> that wraps around
  otherwise.  \<open>offsets[0]\<close> is \<open>0\<close>, and \<open>offsets[i + 1]\<close> is \<open>offsets[i] + counts[i]\<close> in
  that arithmetic.  When the product of all dimensions is below \<open>2^63\<close> nothing wraps:
  the counts and the offsets have the values of the exact products and sums, the offsets
  never decrease, and they increase strictly when all dimensions are positive and the
  first is at least \<open>N - 1\<close>.
\<close>

theorem partition_table:
  assumes "comm_size (case cout of None \<Rightarrow> world | Some c \<Rightarrow> c) = N" and "1 \<le> N"
    and "\<forall>d \<in> set (n # rest). 0 \<le> d \<and> d < 2 ^ 63"
    and "rest = [] \<longrightarrow> n \<le> 2 ^ 53"
  shows "\<exists>self. DGO_init world (Some (n # rest)) cout = Inr self \<and>
      length (counts self) = nat N \<and> length (offsets self) = nat N \<and>
      (\<forall>r. 0 \<le> r \<and> r < N \<longrightarrow>
         (\<exists>e. distribute_shape world (n # rest) (Some r) (Some N) None = Inr (e # rest) \<and>
              counts self ! nat r =
                (if rest = [] then NpFloat64 e
                 else NpInt64 (word_of_int (e * prod_list rest))))) \<and>
      offsets self ! 0 = PyInt 0 \<and>
      (\<forall>i. Suc i < nat N \<longrightarrow>
         num_add (offsets self ! i) (counts self ! i) = Inr (offsets self ! Suc i)) \<and>
      (n * prod_list rest < 2 ^ 63 \<longrightarrow>
         (\<forall>r. 0 \<le> r \<and> r < N \<longrightarrow>
            (\<exists>e. distribute_shape world (n # rest) (Some r) (Some N) None = Inr (e # rest) \<and>
                 num_value (counts self ! nat r) = e * prod_list rest)) \<and>
         (\<forall>i. Suc i < nat N \<longrightarrow>
            num_value (offsets self ! Suc i)
              = num_value (offsets self ! i) + num_value (counts self ! i)) \<and>
         sorted (map num_value (offsets self)) \<and>
         ((\<forall>d \<in> set (n # rest). 0 < d) \<and> N - 1 \<le> n \<longrightarrow>
            sorted_wrt (<) (map num_value (offsets self))))"
proof -
  from assms(2) have pos: "0 < N" and nz: "N \<noteq> 0" by simp_all
  from assms(3) have n0: "0 \<le> n" and n63: "n < 2 ^ 63"
    and rest_fit: "list_all fits_int64 rest" and inner0: "0 \<le> prod_list rest"
    by (auto simp add: list_all_iff fits_int64_def intro: prod_list_nonneg_int)
  define q where "q = n div N"
  define m where "m = n mod N"
  define ext where "ext = (\<lambda>r. q + (if m > r then 1 else (0::int)))"
  define st where "st = (\<lambda>r. q * r + min r m)"
  define mk where "mk = (\<lambda>v. if rest = [] then NpFloat64 v
      else NpInt64 (word_of_int (v * prod_list rest)))"
  have m_range: "0 \<le> m" "m < N" using pos by (simp_all add: m_def)
  have q0: "0 \<le> q" using n0 pos by (simp add: q_def pos_imp_zdiv_nonneg_iff)
  have ext0: "0 \<le> ext r" for r using q0 by (simp add: ext_def)
  have step: "st (r + 1) = st r + ext r" for r
    using start_step [of q r m] by (simp add: st_def ext_def)
  have st_lo: "0 \<le> st r" and st_hi: "st r \<le> n" if "0 \<le> r" "r \<le> N" for r
    using start_bounds [OF n0 pos that] by (simp_all add: st_def q_def m_def)
  have st0: "st 0 = 0" using m_range by (simp add: st_def)
  have ext_hi: "ext r \<le> n" if "0 \<le> r" "r < N" for r
    using step [of r] st_lo [of r] st_hi [of "r + 1"] that by simp
  have "fits_int64 (ext r)" if "0 \<le> r" "r < N" for r
    using ext0 [of r] ext_hi [OF that] n63 unfolding fits_int64_def by linarith
  then have ext_fit:
    "\<forall>r. 0 \<le> r \<and> r < N \<longrightarrow> fits_int64 (n div N + (if n mod N > r then 1 else 0))"
    by (simp add: ext_def q_def m_def)
  have range: "if rest = [] then n \<le> 2 ^ 53
      else list_all fits_int64 rest \<and>
           (\<forall>r. 0 \<le> r \<and> r < N \<longrightarrow> fits_int64 (n div N + (if n mod N > r then 1 else 0)))"
    using assms(4) rest_fit ext_fit by simp
  from DGO_init_result [OF assms(1) pos n0 range]
  obtain self where init: "DGO_init world (Some (n # rest)) cout = Inr self"
    and len: "length (counts self) = nat N" "length (offsets self) = nat N"
    and cnt: "\<And>i. i < nat N \<Longrightarrow> counts self ! i = mk (ext (int i))"
    and off0: "offsets self ! 0 = PyInt 0"
    and off: "\<And>i. i < nat N \<Longrightarrow> 0 < i \<Longrightarrow> offsets self ! i = mk (st (int i))"
    and rec: "\<And>i. Suc i < nat N \<Longrightarrow>
        num_add (offsets self ! i) (counts self ! i) = Inr (offsets self ! Suc i)"
    unfolding q_def m_def ext_def st_def mk_def by blast
  have counts_ok: "\<exists>e. distribute_shape world (n # rest) (Some r) (Some N) None = Inr (e # rest) \<and>
      counts self ! nat r =
        (if rest = [] then NpFloat64 e else NpInt64 (word_of_int (e * prod_list rest)))"
    if "0 \<le> r" "r < N" for r
    using that cnt [of "nat r"]
    by (simp add: distribute_shape_explicit [OF nz] ext_def q_def m_def mk_def)
  have exact: "(\<forall>r. 0 \<le> r \<and> r < N \<longrightarrow>
            (\<exists>e. distribute_shape world (n # rest) (Some r) (Some N) None = Inr (e # rest) \<and>
                 num_value (counts self ! nat r) = e * prod_list rest)) \<and>
         (\<forall>i. Suc i < nat N \<longrightarrow>
            num_value (offsets self ! Suc i)
              = num_value (offsets self ! i) + num_value (counts self ! i)) \<and>
         sorted (map num_value (offsets self)) \<and>
         ((\<forall>d \<in> set (n # rest). 0 < d) \<and> N - 1 \<le> n \<longrightarrow>
            sorted_wrt (<) (map num_value (offsets self)))"
    if small: "n * prod_list rest < 2 ^ 63"
  proof -
    have val: "num_value (mk v) = v * prod_list rest" if "0 \<le> v" "v \<le> n" for v
    proof (cases "rest = []")
      case True
      then show ?thesis by (simp add: mk_def)
    next
      case False
      have "0 \<le> v * prod_list rest" using that(1) inner0 by simp
      moreover have "v * prod_list rest \<le> n * prod_list rest"
        using that(2) inner0 by (rule mult_right_mono)
      ultimately have "fits_int64 (v * prod_list rest)"
        using small by (simp add: fits_int64_def)
      then have "sint (word_of_int (v * prod_list rest) :: 64 word) = v * prod_list rest"
        by (rule sint_word_of_int_64)
      then show ?thesis using False by (simp add: mk_def del: of_int_mult)
    qed
    have cnt_val: "num_value (counts self ! i) = ext (int i) * prod_list rest"
      if "i < nat N" for i
    proof -
      from that have "0 \<le> int i" "int i < N" by simp_all
      then show ?thesis
        using cnt [OF that] val [of "ext (int i)"] ext0 ext_hi by simp
    qed
    have off_val: "num_value (offsets self ! i) = st (int i) * prod_list rest"
      if "i < nat N" for i
    proof (cases i)
      case 0
      then show ?thesis by (simp add: off0 st0)
    next
      case (Suc j)
      with that have "0 \<le> int i" "int i \<le> N" "0 < i" by simp_all
      then show ?thesis
        using off [OF that] val [of "st (int i)"] st_lo st_hi by simp
    qed
    have c1: "\<exists>e. distribute_shape world (n # rest) (Some r) (Some N) None = Inr (e # rest) \<and>
                 num_value (counts self ! nat r) = e * prod_list rest"
      if "0 \<le> r" "r < N" for r
      using that cnt_val [of "nat r"]
      by (simp add: distribute_shape_explicit [OF nz] ext_def q_def m_def)
    have c2: "num_value (offsets self ! Suc i)
        = num_value (offsets self ! i) + num_value (counts self ! i)"
      if "Suc i < nat N" for i
    proof -
      have "st (int (Suc i)) = st (int i) + ext (int i)"
        using step [of "int i"] by (simp add: add.commute)
      then show ?thesis
        using that off_val [of i] off_val [of "Suc i"] cnt_val [of i]
        by (simp add: algebra_simps)
    qed
    have c3: "sorted (map num_value (offsets self))"
    proof -
      have "0 \<le> num_value (counts self ! i)" if "i < nat N" for i
        using cnt_val [OF that] ext0 inner0 by simp
      then have "num_value (offsets self ! i) \<le> num_value (offsets self ! Suc i)"
        if "Suc i < nat N" for i
        using c2 [OF that] that by simp
      then show ?thesis by (simp add: sorted_iff_nth_Suc len)
    qed
    have c4: "sorted_wrt (<) (map num_value (offsets self))"
      if all_pos: "\<forall>d \<in> set (n # rest). 0 < d" and enough: "N - 1 \<le> n"
    proof -
      from all_pos have "0 < n" and inner: "0 < prod_list rest"
        by (simp_all add: prod_list_pos_int)
      have ext_pos: "0 < ext r" if "r < N - 1" for r
      proof (cases "N \<le> n")
        case True
        then have "0 < q" using pos by (simp add: q_def pos_imp_zdiv_pos_iff)
        then show ?thesis by (simp add: ext_def)
      next
        case False
        with \<open>0 < n\<close> have "0 \<le> n" and "n < N" by simp_all
        then have "m = n" and "q = 0" by (simp_all add: m_def q_def)
        moreover have "r < n" using that enough by simp
        ultimately show ?thesis by (simp add: ext_def)
      qed
      have "num_value (offsets self ! i) < num_value (offsets self ! Suc i)"
        if "Suc i < nat N" for i
      proof -
        from that have "int i < N - 1" by linarith
        then have "0 < ext (int i)" by (rule ext_pos)
        then have "0 < num_value (counts self ! i)"
          using cnt_val [of i] that inner by simp
        then show ?thesis using c2 [OF that] by simp
      qed
      then show ?thesis
        by (simp add: sorted_wrt_iff_nth_Suc_transp len)
    qed
    from c1 c2 c3 c4 show ?thesis by blast
  qed
  from init len counts_ok off0 rec exact show ?thesis by blast
qed

theorem partition_table_witness:
  "\<exists>self. DGO_init \<lparr>comm_rank = 1, comm_size = 3\<rparr> (Some [16, 2]) None = Inr self \<and>
      length (counts self) = nat 3 \<and> length (offsets self) = nat 3 \<and>
      (\<forall>r. 0 \<le> r \<and> r < 3 \<longrightarrow>
         (\<exists>e. distribute_shape \<lparr>comm_rank = 1, comm_size = 3\<rparr> [16, 2] (Some r) (Some 3) None
                = Inr [e, 2] \<and>
              counts self ! nat r = NpInt64 (word_of_int (e * prod_list [2])))) \<and>
      offsets self ! 0 = PyInt 0 \<and>
      (\<forall>i. Suc i < nat 3 \<longrightarrow>
         num_add (offsets self ! i) (counts self ! i) = Inr (offsets self ! Suc i)) \<and>
      (\<forall>r. 0 \<le> r \<and> r < 3 \<longrightarrow>
         (\<exists>e. distribute_shape \<lparr>comm_rank = 1, comm_size = 3\<rparr> [16, 2] (Some r) (Some 3) None
                = Inr [e, 2] \<and>
              num_value (counts self ! nat r) = e * prod_list [2])) \<and>
      (\<forall>i. Suc i < nat 3 \<longrightarrow>
         num_value (offsets self ! Suc i)
           = num_value (offsets self ! i) + num_value (counts self ! i)) \<and>
      sorted (map num_value (offsets self)) \<and>
      sorted_wrt (<) (map num_value (offsets self))"
  using partition_table [where cout = None and world = "\<lparr>comm_rank = 1, comm_size = 3\<rparr>"
      and N = 3 and n = 16 and rest = "[2]"]
  by simp

text \<open>
  Claim C5, as the spec states it, fails: for the shape \<open>(1,)\<close> on three workers the
  offsets are \<open>[0, 1, 1]\<close>, which do not increase strictly; and for the shape
  \<open>(3, 2^31, 2^31)\<close> the offsets wrap around to \<open>[0, 2^62, -2^63]\<close>.
\<close>

theorem partition_table_counterexample:
  "DGO_init \<lparr>comm_rank = 0, comm_size = 3\<rparr> (Some [1]) None =
     Inr \<lparr>commout = \<lparr>comm_rank = 0, comm_size = 3\<rparr>, shapein = [1], shapeout = [1],
          slice = Slice 0 1, counts = [NpFloat64 1, NpFloat64 0, NpFloat64 0],
          offsets = [PyInt 0, NpFloat64 1, NpFloat64 1]\<rparr> \<and>
   \<not> sorted_wrt (<) (map num_value
       (offsets (projr (DGO_init \<lparr>comm_rank = 0, comm_size = 3\<rparr> (Some [1]) None)))) \<and>
   map num_value (offsets (projr
       (DGO_init \<lparr>comm_rank = 0, comm_size = 3\<rparr> (Some [3, 2 ^ 31, 2 ^ 31]) None)))
     = [0, 2 ^ 62, - (2 ^ 63)]"
proof -
  have a: "DGO_init \<lparr>comm_rank = 0, comm_size = 3\<rparr> (Some [1]) None =
     Inr \<lparr>commout = \<lparr>comm_rank = 0, comm_size = 3\<rparr>, shapein = [1], shapeout = [1],
          slice = Slice 0 1, counts = [NpFloat64 1, NpFloat64 0, NpFloat64 0],
          offsets = [PyInt 0, NpFloat64 1, NpFloat64 1]\<rparr>"
    by code_simp
  have b: "map num_value (offsets (projr
       (DGO_init \<lparr>comm_rank = 0, comm_size = 3\<rparr> (Some [3, 2 ^ 31, 2 ^ 31]) None)))
     = [0, 2 ^ 62, - (2 ^ 63)]"
    by code_simp
  from a b show ?thesis by simp
qed

text \<open>
  Claim C10.  For a group of size \<open>s \<ge> 1\<close> and a global extent \<open>0 \<le> n < s\<close> the
  partition functions return a value for every rank of the group; a rank \<open>r \<ge> n\<close> gets
  the local extent \<open>0\<close> and the empty slice \<open>[n, n)\<close>; and the constructor over such a
  shape, with other dimensions that fit \<open>int64\<close>, succeeds, with \<open>counts[r]\<close> zero for
  those ranks: the float \<open>0.0\<close> for a shape of one dimension, the \<open>int64\<close> \<open>0\<close> otherwise.
\<close>

theorem more_workers_than_items:
  assumes "1 \<le> s" and "0 \<le> n" and "n < s"
    and "comm_size (case cout of None \<Rightarrow> world | Some c \<Rightarrow> c) = s"
    and "list_all fits_int64 rest" and "rest = [] \<longrightarrow> n \<le> 2 ^ 53"
  shows "(\<forall>r. 0 \<le> r \<and> r < s \<longrightarrow>
            (\<exists>e sl. distribute_shape world (n # rest) (Some r) (Some s) comm = Inr (e # rest) \<and>
                    distribute_slice world n (Some r) (Some s) comm = Inr sl)) \<and>
         (\<forall>r. n \<le> r \<and> r < s \<longrightarrow>
            distribute_shape world (n # rest) (Some r) (Some s) comm = Inr (0 # rest) \<and>
            distribute_slice world n (Some r) (Some s) comm = Inr (Slice n n)) \<and>
         (\<exists>self. DGO_init world (Some (n # rest)) cout = Inr self \<and>
            length (counts self) = nat s \<and>
            (\<forall>r. n \<le> r \<and> r < s \<longrightarrow>
               counts self ! nat r = (if rest = [] then NpFloat64 0 else NpInt64 0) \<and>
               num_value (counts self ! nat r) = 0))"
proof -
  from assms(1) have pos: "0 < s" and nz: "s \<noteq> 0" by simp_all
  have q: "n div s = 0" and m: "n mod s = n" using assms(2,3) by simp_all
  have every: "\<exists>e sl. distribute_shape world (n # rest) (Some r) (Some s) comm = Inr (e # rest) \<and>
                    distribute_slice world n (Some r) (Some s) comm = Inr sl" for r
    by (simp add: distribute_shape_explicit [OF nz] distribute_slice_explicit [OF nz])
  have idle: "distribute_shape world (n # rest) (Some r) (Some s) comm = Inr (0 # rest) \<and>
            distribute_slice world n (Some r) (Some s) comm = Inr (Slice n n)" if "n \<le> r" for r
    using that by (simp add: distribute_shape_explicit [OF nz] distribute_slice_explicit [OF nz] q m)
  have range: "if rest = [] then n \<le> 2 ^ 53
      else list_all fits_int64 rest \<and>
           (\<forall>r. 0 \<le> r \<and> r < s \<longrightarrow> fits_int64 (n div s + (if n mod s > r then 1 else 0)))"
    using assms(5,6) by (simp add: q m fits_int64_def)
  from DGO_init_result [OF assms(4) pos assms(2) range]
  obtain self where init: "DGO_init world (Some (n # rest)) cout = Inr self"
    and len: "length (counts self) = nat s"
    and cnt: "\<And>i. i < nat s \<Longrightarrow> counts self ! i =
         (if rest = [] then NpFloat64 (n div s + (if n mod s > int i then 1 else 0))
          else NpInt64 (word_of_int
                 ((n div s + (if n mod s > int i then 1 else 0)) * prod_list rest)))"
    by blast
  have "counts self ! nat r = (if rest = [] then NpFloat64 0 else NpInt64 0) \<and>
      num_value (counts self ! nat r) = 0" if "n \<le> r" "r < s" for r
    using that assms(2) cnt [of "nat r"] by (simp add: q m)
  with init len every idle show ?thesis by blast
qed

theorem more_workers_than_items_witness:
  "distribute_shape \<lparr>comm_rank = 2, comm_size = 3\<rparr> [1, 4] (Some 1) (Some 3) None
     = Inr [0, 4] \<and>
   distribute_slice \<lparr>comm_rank = 2, comm_size = 3\<rparr> 1 (Some 1) (Some 3) None
     = Inr (Slice 1 1) \<and>
   distribute_shape \<lparr>comm_rank = 2, comm_size = 3\<rparr> [1, 4] (Some 2) (Some 3) None
     = Inr [0, 4] \<and>
   distribute_slice \<lparr>comm_rank = 2, comm_size = 3\<rparr> 1 (Some 2) (Some 3) None
     = Inr (Slice 1 1) \<and>
   (\<exists>self. DGO_init \<lparr>comm_rank = 2, comm_size = 3\<rparr> (Some [1, 4]) None = Inr self \<and>
      length (counts self) = 3 \<and>
      counts self ! 1 = NpInt64 0 \<and> num_value (counts self ! 1) = 0 \<and>
      counts self ! 2 = NpInt64 0 \<and> num_value (counts self ! 2) = 0)"
proof -
  have "(1::int) \<le> 3" and "(0::int) \<le> 1" and "(1::int) < 3"
    and "comm_size (case None of None \<Rightarrow> \<lparr>comm_rank = 2, comm_size = 3\<rparr> | Some c \<Rightarrow> c) = 3"
    and "list_all fits_int64 [4]" and "[4] = [] \<longrightarrow> (1::int) \<le> 2 ^ 53"
    by (simp_all add: fits_int64_def)
  from more_workers_than_items [OF this, of None]
  obtain self where idle: "\<forall>r. 1 \<le> r \<and> r < 3 \<longrightarrow>
        distribute_shape \<lparr>comm_rank = 2, comm_size = 3\<rparr> [1, 4] (Some r) (Some 3) None
          = Inr [0, 4] \<and>
        distribute_slice \<lparr>comm_rank = 2, comm_size = 3\<rparr> 1 (Some r) (Some 3) None
          = Inr (Slice 1 1)"
    and init: "DGO_init \<lparr>comm_rank = 2, comm_size = 3\<rparr> (Some [1, 4]) None = Inr self"
    and len: "length (counts self) = nat 3"
    and zero: "\<forall>r. 1 \<le> r \<and> r < 3 \<longrightarrow>
        counts self ! nat r = (if [4::int] = [] then NpFloat64 0 else NpInt64 0) \<and>
        num_value (counts self ! nat r) = 0"
    by blast
  from zero [rule_format, of 1] zero [rule_format, of 2]
  have "counts self ! 1 = NpInt64 0 \<and> num_value (counts self ! 1) = 0"
    and "counts self ! 2 = NpInt64 0 \<and> num_value (counts self ! 2) = 0" by simp_all
  with idle [rule_format, of 1] idle [rule_format, of 2] init len show ?thesis by simp
qed

subsection \<open>DistributionGlobalOperator\<close>


lemma gather_blocks_append:
  "gather_blocks recv (xs @ ys) = and_then (gather_blocks recv xs) (\<lambda>r. gather_blocks r ys)"
  by (induction xs arbitrary: recv) (simp_all add: and_then_def split: sum.splits)

text \<open>
  Blocks cut from a buffer \<open>B\<close> back to back, gathered at the displacements they were
  cut from, rebuild \<open>B\<close> up to the end of the last block.
\<close>

lemma gather_blocks_tile:
  fixes c d :: "nat \<Rightarrow> nat"
  assumes "length recv = length B"
    and "d 0 = 0" and "\<forall>i < M. d (Suc i) = d i + c i" and "d M \<le> length B"
  shows "gather_blocks recv
           (map (\<lambda>i. (take (c i) (drop (d i) B), int (c i), int (d i))) [0..<M])
         = Inr (take (d M) B @ drop (d M) recv)"
  using assms(3,4)
proof (induction M)
  case 0
  show ?case using assms(2) by simp
next
  case (Suc M)
  have dS: "d (Suc M) = d M + c M" using Suc.prems(1) by simp
  with Suc.prems(2) have dM: "d M \<le> length B" and fits: "d M + c M \<le> length B" by simp_all
  have IH: "gather_blocks recv
           (map (\<lambda>i. (take (c i) (drop (d i) B), int (c i), int (d i))) [0..<M])
         = Inr (take (d M) B @ drop (d M) recv)"
    using Suc.IH Suc.prems(1) dM by simp
  let ?R = "take (d M) B @ drop (d M) recv"
  have lenR: "length ?R = length B" using dM assms(1) by simp
  have blk: "length (take (c M) (drop (d M) B)) = c M" using fits by simp
  have place: "place_block ?R (take (c M) (drop (d M) B), int (c M), int (d M))
      = Inr (take (d M) ?R @ take (c M) (drop (d M) B) @ drop (d M + c M) ?R)"
    unfolding place_block_def using fits lenR blk
    by (simp add: nat_add_distrib del: length_append length_take length_drop)
  have t1: "take (d M) ?R = take (d M) B" using dM by simp
  have t2: "drop (d M + c M) ?R = drop (d M + c M) recv" using dM by (simp add: add.commute)
  have t3: "take (d M) B @ take (c M) (drop (d M) B) = take (d M + c M) B"
    by (simp add: take_add)
  let ?f = "\<lambda>i. (take (c i) (drop (d i) B), int (c i), int (d i))"
  have "gather_blocks recv (map ?f [0..<Suc M])
      = and_then (gather_blocks recv (map ?f [0..<M])) (\<lambda>r. gather_blocks r [?f M])"
    by (simp add: gather_blocks_append)
  also have "\<dots> = and_then (place_block ?R (?f M)) Inr"
    unfolding IH by (simp only: and_then_def gather_blocks.simps sum.case)
  also have "\<dots> = Inr (take (d M) ?R @ take (c M) (drop (d M) B) @ drop (d M + c M) ?R)"
    unfolding place by (simp only: and_then_def sum.case)
  also have "\<dots> = Inr (take (d (Suc M)) B @ drop (d (Suc M)) recv)"
    unfolding t1 t2 dS t3 [symmetric] by (simp only: append_assoc)
  finally show ?case .
qed

lemma traverse_nth:
  "length ys = length xs \<Longrightarrow> (\<And>i. i < length xs \<Longrightarrow> f (xs ! i) = Inr (ys ! i))
   \<Longrightarrow> traverse f xs = Inr ys"
proof (induction xs arbitrary: ys)
  case Nil
  then show ?case by simp
next
  case (Cons x xs)
  from Cons.prems(1) obtain y ys' where ys: "ys = y # ys'" by (cases ys) auto
  have "f x = Inr y" using Cons.prems(2) [of 0] by (simp add: ys)
  moreover have "traverse f xs = Inr ys'"
  proof (rule Cons.IH)
    show "length ys' = length xs" using Cons.prems(1) by (simp add: ys)
    show "f (xs ! i) = Inr (ys' ! i)" if "i < length xs" for i
      using Cons.prems(2) [of "Suc i"] that by (simp add: ys)
  qed
  ultimately show ?case by (simp add: and_then_def ys)
qed


text \<open>
  The round trip for shapes of two or more dimensions, where \<open>counts\<close> and \<open>offsets\<close>
  hold integers.  Let \<open>G\<close> be a global buffer of such a shape, of less than \<open>2^31\<close>
  bytes, and let the group have \<open>N \<ge> 1\<close> workers.  Every worker constructs the operator
  for the shape, applies \<open>direct\<close> to \<open>G\<close> with an output of its local shape, and then
  all workers apply \<open>transpose\<close> to these local buffers with outputs of the global shape,
  all of the element type of \<open>G\<close>.  Every step succeeds, and every worker's final output
  is \<open>G\<close>, byte for byte, whatever the outputs held before.
\<close>

theorem scatter_gather_roundtrip_matrix:
  assumes shp: "shape G = n # rest" and higher: "rest \<noteq> []"
    and dims: "\<forall>d \<in> set (n # rest). 0 \<le> d \<and> d < 2 ^ 63"
    and width: "0 \<le> itemsize G" "itemsize G < 2 ^ 31"
    and full: "length (storage G) = nat (itemsize G * prod_list (n # rest))"
    and bytes: "itemsize G * prod_list (n # rest) < 2 ^ 31"
    and group: "1 \<le> N"
    and len_l: "length louts = nat N" and len_g: "length gouts = nat N"
    and louts: "\<forall>i < nat N.
        distribute_shape world (n # rest) (Some (int i)) (Some N) None
          = Inr (shape (louts ! i)) \<and>
        dtype (louts ! i) = dtype G"
    and gouts: "\<forall>i < nat N.
        shape (gouts ! i) = n # rest \<and> dtype (gouts ! i) = dtype G \<and>
        length (storage (gouts ! i)) = length (storage G)"
  shows "\<exists>ops locals.
      traverse (\<lambda>r. DGO_init world (Some (n # rest)) (Some \<lparr>comm_rank = r, comm_size = N\<rparr>))
        [0..N - 1] = Inr ops \<and>
      traverse (\<lambda>(self, out). DGO_direct astype self G out) (zip ops louts) = Inr locals \<and>
      DGO_transpose astype (zip ops (zip locals gouts)) = Inr (replicate (nat N) G)"
proof -
  define k where "k = itemsize G"
  define inner where "inner = prod_list rest"
  define B where "B = storage G"
  define q where "q = n div N"
  define m where "m = n mod N"
  define st where "st = (\<lambda>r. q * r + min r m)"
  define ext where "ext = (\<lambda>r. q + (if m > r then 1 else (0::int)))"
  define c where "c = (\<lambda>i. nat (ext (int i) * inner * k))"
  define d where "d = (\<lambda>i. nat (st (int i) * inner * k))"
  define blk where "blk = (\<lambda>i. take (c i) (drop (d i) B))"
  define opf where "opf = (\<lambda>r. projr (DGO_init world (Some (n # rest))
      (Some \<lparr>comm_rank = r, comm_size = N\<rparr>)))"
  define M where "M = nat N"
  from group have pos: "0 < N" and nz: "N \<noteq> 0" by simp_all
  from dims have n0: "0 \<le> n" and n63: "n < 2 ^ 63"
    and rest_fit: "list_all fits_int64 rest" and inner0: "0 \<le> inner"
    by (auto simp add: list_all_iff fits_int64_def inner_def intro: prod_list_nonneg_int)
  have k0: "0 \<le> k" and k31: "k < 2 ^ 31" using width by (simp_all add: k_def)
  have k_fit: "fits_int64 k" using k0 k31 by (simp add: fits_int64_def)
  have total: "n * inner * k < 2 ^ 31"
    using bytes by (simp add: k_def inner_def mult.commute mult.left_commute)
  have q0: "0 \<le> q" using n0 pos by (simp add: q_def pos_imp_zdiv_nonneg_iff)
  have m_range: "0 \<le> m" "m < N" using pos by (simp_all add: m_def)
  have ext0: "0 \<le> ext r" for r using q0 by (simp add: ext_def)
  have step: "st (r + 1) = st r + ext r" for r
    using start_step [of q r m] by (simp add: st_def ext_def)
  have st_lo: "0 \<le> st r" and st_hi: "st r \<le> n" if "0 \<le> r" "r \<le> N" for r
    using start_bounds [OF n0 pos that] by (simp_all add: st_def q_def m_def)
  have st_nonneg: "0 \<le> st (int i)" for i
    using q0 m_range by (simp add: st_def)
  have st0: "st 0 = 0" using m_range by (simp add: st_def)
  have stN: "st N = n" using m_range by (simp add: st_def q_def m_def)
  have ext_hi: "ext r \<le> n" if "0 \<le> r" "r < N" for r
    using step [of r] st_lo [of r] st_hi [of "r + 1"] that by simp
  have lenB: "length B = nat (n * inner * k)"
    using full by (simp add: B_def k_def inner_def mult.commute mult.left_commute)
  have intM: "int M = N" and Mpos: "0 < M" using pos by (simp_all add: M_def)
  have idx: "0 \<le> int i" "int i + 1 \<le> N" "int i \<le> N" "int i < N" if "i < M" for i
    using that intM by simp_all
  have small: "0 \<le> v * inner * k \<and> v * inner * k < 2 ^ 31" if "0 \<le> v" "v \<le> n" for v
  proof -
    have ik: "0 \<le> inner * k" using inner0 k0 by simp
    from that(2) ik have "v * (inner * k) \<le> n * (inner * k)" by (rule mult_right_mono)
    moreover have "0 \<le> v * (inner * k)" using that(1) ik by simp
    ultimately show ?thesis using total by (simp add: mult.assoc)
  qed

  \<comment> \<open>the operators\<close>
  have "fits_int64 (ext r)" if "0 \<le> r" "r < N" for r
    using ext0 [of r] ext_hi [OF that] n63 unfolding fits_int64_def by linarith
  then have range: "if rest = [] then n \<le> 2 ^ 53
      else list_all fits_int64 rest \<and>
           (\<forall>r. 0 \<le> r \<and> r < N \<longrightarrow> fits_int64 (n div N + (if n mod N > r then 1 else 0)))"
    using higher rest_fit by (simp add: ext_def q_def m_def)
  have init: "DGO_init world (Some (n # rest)) (Some \<lparr>comm_rank = r, comm_size = N\<rparr>)
        = Inr (opf r) \<and>
      slice (opf r) = Slice (st r) (st r + ext r) \<and>
      length (counts (opf r)) = M \<and> length (offsets (opf r)) = M \<and>
      (\<forall>i < M. counts (opf r) ! i = NpInt64 (word_of_int (ext (int i) * inner))) \<and>
      offsets (opf r) ! 0 = PyInt 0 \<and>
      (\<forall>i < M. 0 < i \<longrightarrow> offsets (opf r) ! i = NpInt64 (word_of_int (st (int i) * inner)))"
    for r
  proof -
    have "comm_size (case Some \<lparr>comm_rank = r, comm_size = N\<rparr> of
        None \<Rightarrow> world | Some c \<Rightarrow> c) = N" by simp
    from DGO_init_result [OF this pos n0 range]
    show ?thesis
      unfolding opf_def q_def m_def st_def ext_def inner_def M_def using higher by auto
  qed
  define ops where "ops = map opf [0..N - 1]"
  have ops_run: "traverse (\<lambda>r. DGO_init world (Some (n # rest))
      (Some \<lparr>comm_rank = r, comm_size = N\<rparr>)) [0..N - 1] = Inr ops"
    unfolding ops_def by (rule traverse_all_Inr) (simp add: init)
  have len_ops: "length ops = M" using pos by (simp add: ops_def M_def)
  have ops_nth: "ops ! i = opf (int i)" if "i < M" for i
    using that intM by (simp add: ops_def)

  \<comment> \<open>forward on every worker\<close>
  define locals where "locals = map (\<lambda>i. (louts ! i)\<lparr>storage := blk i\<rparr>) [0..<M]"
  have len_locals: "length locals = M" by (simp add: locals_def)
  have direct_i: "DGO_direct astype (opf (int i)) G (louts ! i)
      = Inr ((louts ! i)\<lparr>storage := blk i\<rparr>)" if "i < M" for i
  proof -
    let ?r = "int i"
    have lo: "clip_index n (st ?r) = st ?r"
      using st_lo [of ?r] st_hi [of ?r] idx [OF that] by (simp add: clip_index_def)
    have hi: "clip_index n (st ?r + ext ?r) = st ?r + ext ?r"
      using st_lo [of "?r + 1"] st_hi [of "?r + 1"] idx [OF that]
      by (simp add: clip_index_def step)
    have sizes: "nat (ext ?r * (k * inner)) = c i" "nat (st ?r * (k * inner)) = d i"
      by (simp_all add: c_def d_def mult.commute mult.left_commute)
    have cut: "getslice G (st ?r) (st ?r + ext ?r)
        = Inr \<lparr>shape = ext ?r # rest, dtype = dtype G, storage = blk i\<rparr>"
      using ext0 [of ?r]
      by (simp add: getslice_def shp lo hi Let_def sizes blk_def
          k_def [symmetric] inner_def [symmetric] B_def [symmetric])
    have out_shape: "shape (louts ! i) = ext ?r # rest" and out_type: "dtype (louts ! i) = dtype G"
      using louts that
      by (simp_all add: M_def distribute_shape_explicit [OF nz] ext_def q_def m_def)
    show ?thesis
      using init [of ?r]
      by (simp add: DGO_direct_def cut and_then_def out_shape out_type setall_def)
  qed
  have direct_run: "traverse (\<lambda>(self, out). DGO_direct astype self G out) (zip ops louts)
      = Inr locals"
  proof (rule traverse_nth)
    show "length locals = length (zip ops louts)"
      by (simp add: len_locals len_ops len_l M_def)
    show "(case zip ops louts ! i of (self, out) \<Rightarrow> DGO_direct astype self G out)
        = Inr (locals ! i)" if "i < length (zip ops louts)" for i
    proof -
      from that have "i < M" by (simp add: len_ops)
      then show ?thesis
        using that by (simp add: ops_nth direct_i locals_def)
    qed
  qed

  \<comment> \<open>what every worker passes to the collective\<close>
  define cs where "cs = map (\<lambda>j. NpInt64 (word_of_int (ext (int j) * inner * k))) [0..<M]"
  define ds where "ds = map (\<lambda>j. if j = 0 then PyInt 0
      else NpInt64 (word_of_int (st (int j) * inner * k))) [0..<M]"
  have scale_counts: "traverse (\<lambda>x. num_mul x (PyInt k)) (counts (opf r)) = Inr cs" for r
  proof (rule traverse_nth)
    show "length cs = length (counts (opf r))" using init [of r] by (simp add: cs_def)
    show "num_mul (counts (opf r) ! j) (PyInt k) = Inr (cs ! j)"
      if "j < length (counts (opf r))" for j
    proof -
      from that have "j < M" using init [of r] by simp
      then show ?thesis using init [of r] k_fit by (simp add: cs_def)
    qed
  qed
  have scale_offsets: "traverse (\<lambda>x. num_mul x (PyInt k)) (offsets (opf r)) = Inr ds" for r
  proof (rule traverse_nth)
    show "length ds = length (offsets (opf r))" using init [of r] by (simp add: ds_def)
    show "num_mul (offsets (opf r) ! j) (PyInt k) = Inr (ds ! j)"
      if "j < length (offsets (opf r))" for j
    proof -
      from that have "j < M" using init [of r] by simp
      then show ?thesis using init [of r] k_fit by (cases j) (simp_all add: ds_def)
    qed
  qed
  have c_int: "to_c_int (NpInt64 (word_of_int (v * inner * k))) = Inr (v * inner * k)"
    if "0 \<le> v" "v \<le> n" for v
  proof -
    from small [OF that] have "fits_int64 (v * inner * k)" by (simp add: fits_int64_def)
    then have "sint (word_of_int (v * inner * k) :: 64 word) = v * inner * k"
      by (rule sint_word_of_int_64)
    then show ?thesis using small [OF that] by (simp add: to_c_int_def del: of_int_mult)
  qed
  have conv_counts: "traverse to_c_int cs = Inr (map (\<lambda>j. int (c j)) [0..<M])"
  proof (rule traverse_nth)
    show "length (map (\<lambda>j. int (c j)) [0..<M]) = length cs" by (simp add: cs_def)
    show "to_c_int (cs ! j) = Inr (map (\<lambda>j. int (c j)) [0..<M] ! j)" if "j < length cs" for j
    proof -
      from that have j: "j < M" by (simp add: cs_def)
      have "0 \<le> ext (int j)" "ext (int j) \<le> n" using ext0 ext_hi idx [OF j] by simp_all
      then show ?thesis
        using j c_int [of "ext (int j)"] small [of "ext (int j)"] by (simp add: cs_def c_def)
    qed
  qed
  have conv_offsets: "traverse to_c_int ds = Inr (map (\<lambda>j. int (d j)) [0..<M])"
  proof (rule traverse_nth)
    show "length (map (\<lambda>j. int (d j)) [0..<M]) = length ds" by (simp add: ds_def)
    show "to_c_int (ds ! j) = Inr (map (\<lambda>j. int (d j)) [0..<M] ! j)" if "j < length ds" for j
    proof -
      from that have j: "j < M" by (simp add: ds_def)
      have b: "0 \<le> st (int j)" "st (int j) \<le> n" using st_lo st_hi idx [OF j] by simp_all
      show ?thesis
      proof (cases j)
        case 0
        then show ?thesis using j by (simp add: ds_def d_def st0 to_c_int_def)
      next
        case (Suc j')
        then show ?thesis
          using j c_int [OF b] small [OF b] by (simp add: ds_def d_def)
      qed
    qed
  qed
  define calls where "calls = zip ops (zip locals gouts)"
  define passed where "passed = map (\<lambda>i. (blk i, storage (gouts ! i), cs, ds)) [0..<M]"
  have len_calls: "length calls = M"
    by (simp add: calls_def len_ops len_locals len_g M_def)
  have len_passed: "length passed = M" by (simp add: passed_def)
  have calls_nth: "calls ! i = (opf (int i), (louts ! i)\<lparr>storage := blk i\<rparr>, gouts ! i)"
    if "i < M" for i
    using that by (simp add: calls_def len_ops len_locals len_g M_def [symmetric]
        ops_nth locals_def)
  have g_i: "shape (gouts ! i) = n # rest" "dtype (gouts ! i) = dtype G"
    "length (storage (gouts ! i)) = length B" if "i < M" for i
    using gouts that by (simp_all add: M_def B_def)
  have l_type: "dtype (louts ! i) = dtype G" if "i < M" for i
    using louts that by (simp add: M_def)
  have pass_run: "traverse (\<lambda>(self, input, output).
      DGO_transpose_call astype self input output) calls = Inr passed"
  proof (rule traverse_nth)
    show "length passed = length calls" by (simp add: len_passed len_calls)
    show "(case calls ! i of (self, input, output) \<Rightarrow>
        DGO_transpose_call astype self input output) = Inr (passed ! i)"
      if "i < length calls" for i
    proof -
      from that have i: "i < M" by (simp add: len_calls)
      show ?thesis
        using i
        by (simp add: calls_nth DGO_transpose_call_def itemsize_def g_i l_type
            k_def [symmetric, unfolded itemsize_def] scale_counts scale_offsets and_then_def
            passed_def)
    qed
  qed

  \<comment> \<open>the collective\<close>
  have d0: "d 0 = 0" by (simp add: d_def st0)
  have d_step: "d (Suc i) = d i + c i" for i
  proof -
    have "st (int (Suc i)) = st (int i) + ext (int i)"
      using step [of "int i"] by (simp add: add.commute)
    moreover have "0 \<le> st (int i) * inner * k"
      using st_nonneg inner0 k0 by simp
    moreover have "0 \<le> ext (int i) * inner * k"
      using ext0 inner0 k0 by simp
    ultimately show ?thesis
      by (simp add: d_def c_def nat_add_distrib algebra_simps)
  qed
  have dM: "d M = length B" by (simp add: d_def intM stN lenB)
  have blocks: "zip (map fst passed)
        (zip (map (\<lambda>j. int (c j)) [0..<M]) (map (\<lambda>j. int (d j)) [0..<M]))
      = map (\<lambda>j. (take (c j) (drop (d j) B), int (c j), int (d j))) [0..<M]"
    by (rule nth_equalityI) (simp_all add: len_passed passed_def blk_def)
  have gather_i: "(case passed ! i of (send, recv, cnts, displs) \<Rightarrow>
        and_then (traverse to_c_int cnts) (\<lambda>cs.
        and_then (traverse to_c_int displs) (\<lambda>ds.
          if length cs \<noteq> length passed \<or> length ds \<noteq> length passed
          then Inl CommunicationFailure
          else gather_blocks recv (zip (map fst passed) (zip cs ds))))) = Inr B"
    if "i < M" for i
  proof -
    have "gather_blocks (storage (gouts ! i))
        (map (\<lambda>j. (take (c j) (drop (d j) B), int (c j), int (d j))) [0..<M])
      = Inr (take (d M) B @ drop (d M) (storage (gouts ! i)))"
      by (rule gather_blocks_tile) (simp_all add: g_i [OF that] d0 d_step dM)
    moreover have "passed ! i = (blk i, storage (gouts ! i), cs, ds)"
      using that by (simp add: passed_def)
    ultimately show ?thesis
      by (simp add: conv_counts conv_offsets and_then_def len_passed blocks dM g_i [OF that])
  qed
  have gather_run: "Allgatherv passed = Inr (replicate M B)"
    unfolding Allgatherv_def
  proof (rule traverse_nth)
    show "length (replicate M B) = length passed" by (simp add: len_passed)
  next
    fix i
    assume "i < length passed"
    then have i: "i < M" by (simp add: len_passed)
    then have same: "replicate M B ! i = B" by simp
    show "(case passed ! i of (send, recv, cnts, displs) \<Rightarrow>
        and_then (traverse to_c_int cnts) (\<lambda>cs.
        and_then (traverse to_c_int displs) (\<lambda>ds.
          if length cs \<noteq> length passed \<or> length ds \<noteq> length passed
          then Inl CommunicationFailure
          else gather_blocks recv (zip (map fst passed) (zip cs ds)))))
      = Inr (replicate M B ! i)"
      unfolding same by (rule gather_i [OF i])
  qed
  have final: "map (\<lambda>((self, inp, out), bytes). out\<lparr>storage := bytes\<rparr>)
      (zip calls (replicate M B)) = replicate M G"
  proof (rule nth_equalityI)
    show "length (map (\<lambda>((self, inp, out), bytes). out\<lparr>storage := bytes\<rparr>)
        (zip calls (replicate M B))) = length (replicate M G)"
      by (simp add: len_calls)
  next
    fix i
    assume "i < length (map (\<lambda>((self, inp, out), bytes). out\<lparr>storage := bytes\<rparr>)
        (zip calls (replicate M B)))"
    then have i: "i < M" by (simp add: len_calls)
    have "(gouts ! i)\<lparr>storage := B\<rparr> = G"
      by (rule ndarray.equality) (simp_all add: g_i [OF i] shp B_def)
    then show "map (\<lambda>((self, inp, out), bytes). out\<lparr>storage := bytes\<rparr>)
        (zip calls (replicate M B)) ! i = replicate M G ! i"
      using i by (simp add: len_calls calls_nth)
  qed
  have transpose_run: "DGO_transpose astype calls = Inr (replicate M G)"
    by (simp add: DGO_transpose_def pass_run gather_run and_then_def final)
  from ops_run direct_run transpose_run show ?thesis
    unfolding calls_def M_def by blast
qed

text \<open>The same array as a column, of shape \<open>(3, 1)\<close>, does make the round trip.\<close>

theorem scatter_gather_roundtrip_matrix_example:
  "\<exists>ops locals.
      traverse (\<lambda>r. DGO_init \<lparr>comm_rank = 0, comm_size = 3\<rparr> (Some [3, 1])
                     (Some \<lparr>comm_rank = r, comm_size = 3\<rparr>)) [0..3 - 1] = Inr ops \<and>
      traverse (\<lambda>(self, out). DGO_direct (\<lambda>t a. a) self
                  \<lparr>shape = [3, 1], dtype = \<lparr>dtype_name = ''int16'', dtype_itemsize = 2\<rparr>,
                   storage = [1, 0, 2, 0, 3, 0]\<rparr> out)
        (zip ops (replicate 3
           \<lparr>shape = [1, 1], dtype = \<lparr>dtype_name = ''int16'', dtype_itemsize = 2\<rparr>,
            storage = [9, 9]\<rparr>)) = Inr locals \<and>
      DGO_transpose (\<lambda>t a. a)
        (zip ops (zip locals (replicate 3
           \<lparr>shape = [3, 1], dtype = \<lparr>dtype_name = ''int16'', dtype_itemsize = 2\<rparr>,
            storage = [7, 7, 7, 7, 7, 7]\<rparr>)))
        = Inr (replicate (nat 3)
            \<lparr>shape = [3, 1], dtype = \<lparr>dtype_name = ''int16'', dtype_itemsize = 2\<rparr>,
             storage = [1, 0, 2, 0, 3, 0]\<rparr>)"
proof -
  let ?t = "\<lparr>dtype_name = ''int16'', dtype_itemsize = 2\<rparr>"
  let ?G = "\<lparr>shape = [3, 1], dtype = ?t, storage = [1, 0, 2, 0, 3, 0 :: byte]\<rparr>"
  let ?louts = "replicate 3 \<lparr>shape = [1, 1], dtype = ?t, storage = [9, 9 :: byte]\<rparr>"
  let ?gouts = "replicate 3 \<lparr>shape = [3, 1], dtype = ?t, storage = [7, 7, 7, 7, 7, 7 :: byte]\<rparr>"
  let ?w = "\<lparr>comm_rank = 0, comm_size = 3\<rparr>"
  have a: "shape ?G = 3 # [1]" and a': "[1::int] \<noteq> []" by simp_all
  have b: "\<forall>d \<in> set (3 # [1]). (0::int) \<le> d \<and> d < 2 ^ 63" by simp
  have c: "0 \<le> itemsize ?G" "itemsize ?G < 2 ^ 31" by (simp_all add: itemsize_def)
  have d: "length (storage ?G) = nat (itemsize ?G * prod_list (3 # [1]))"
    by (simp add: itemsize_def)
  have d': "itemsize ?G * prod_list (3 # [1]) < 2 ^ 31" by (simp add: itemsize_def)
  have e: "(1::int) \<le> 3" by simp
  have f: "length ?louts = nat 3" and g: "length ?gouts = nat 3" by simp_all
  have h: "\<forall>i < nat 3.
        distribute_shape ?w (3 # [1]) (Some (int i)) (Some 3) None = Inr (shape (?louts ! i)) \<and>
        dtype (?louts ! i) = dtype ?G"
    by (simp add: distribute_shape_explicit)
  have i: "\<forall>i < nat 3.
        shape (?gouts ! i) = 3 # [1] \<and> dtype (?gouts ! i) = dtype ?G \<and>
        length (storage (?gouts ! i)) = length (storage ?G)"
    by simp
  show ?thesis
    using scatter_gather_roundtrip_matrix [OF a a' b c d d' e f g h i, of "\<lambda>t a. a"] by simp
qed

end
